theory Spec2Isabelle
  imports Complex_Main
begin

section \<open>Geometry kernel (src/utils.py)\<close>

text \<open>
  Positions, speeds and timers are modelled as exact reals: for them the rounding,
  overflow and NaN of IEEE doubles are not part of the model. The one operation whose
  answer depends on rounding, \<open>Vector2D.normalize\<close>, is modelled on Python's ints and
  doubles in the section on Python numbers below. Exceptions are values of \<open>py_exn\<close>.
\<close>

datatype py_exn = ZeroDivision | IndexOutOfRange | Overflow | MathDomain

datatype Direction = UP | DOWN | LEFT | RIGHT | NONE

fun dir_value :: "Direction \<Rightarrow> real \<times> real" where
  "dir_value UP = (0, -1)"
| "dir_value DOWN = (0, 1)"
| "dir_value LEFT = (-1, 0)"
| "dir_value RIGHT = (1, 0)"
| "dir_value NONE = (0, 0)"

record Vector2D =
  x :: real
  y :: real

definition Vec :: "real \<Rightarrow> real \<Rightarrow> Vector2D" where
  "Vec a b = \<lparr>x = a, y = b\<rparr>"

definition vadd :: "Vector2D \<Rightarrow> Vector2D \<Rightarrow> Vector2D" where
  "vadd a b = Vec (x a + x b) (y a + y b)"

definition vsub :: "Vector2D \<Rightarrow> Vector2D \<Rightarrow> Vector2D" where
  "vsub a b = Vec (x a - x b) (y a - y b)"

definition vmul :: "Vector2D \<Rightarrow> real \<Rightarrow> Vector2D" where
  "vmul a s = Vec (x a * s) (y a * s)"

definition magnitude :: "Vector2D \<Rightarrow> real" where
  "magnitude v = sqrt (x v * x v + y v * y v)"

definition distance_to :: "Vector2D \<Rightarrow> Vector2D \<Rightarrow> real" where
  "distance_to a b = magnitude (vsub a b)"

definition manhattan_distance_to :: "Vector2D \<Rightarrow> Vector2D \<Rightarrow> real" where
  "manhattan_distance_to a b = \<bar>x a - x b\<bar> + \<bar>y a - y b\<bar>"

section \<open>Maze and collision service (src/map.py)\<close>

text \<open>
  Sequencing of calls that may raise: the first exception aborts the rest.
\<close>

definition exn_bind :: "py_exn + 'a \<Rightarrow> ('a \<Rightarrow> py_exn + 'b) \<Rightarrow> py_exn + 'b" where
  "exn_bind r f = (case r of Inl e \<Rightarrow> Inl e | Inr v \<Rightarrow> f v)"

text \<open>
  Python list indexing \<open>xs[i]\<close>: a negative index counts from the end, an index out of
  range raises IndexError.
\<close>

definition py_getitem :: "'a list \<Rightarrow> int \<Rightarrow> py_exn + 'a" where
  "py_getitem xs i =
     (let n = int (length xs); j = (if i < 0 then i + n else i) in
      if j < 0 \<or> n \<le> j then Inl IndexOutOfRange else Inr (xs ! nat j))"

definition py_setitem :: "'a list \<Rightarrow> int \<Rightarrow> 'a \<Rightarrow> py_exn + 'a list" where
  "py_setitem xs i v =
     (let n = int (length xs); j = (if i < 0 then i + n else i) in
      if j < 0 \<or> n \<le> j then Inl IndexOutOfRange else Inr (xs[nat j := v]))"

text \<open>\<open>int(p // c)\<close>: floor division, which raises on a zero divisor.\<close>

definition grid_coord :: "real \<Rightarrow> real \<Rightarrow> py_exn + int" where
  "grid_coord p c = (if c = 0 then Inl ZeroDivision else Inr \<lfloor>p / c\<rfloor>)"

text \<open>
  The maze: the grid of cell codes (0 empty, 1 wall, 2 pellet, 3 power-up), the cell size
  and the named spawn positions. \<open>_width\<close> and \<open>_height\<close> are what
  \<open>_update_dimensions\<close> computes from the layout.
\<close>

record Map =
  layout :: "int list list"
  cell_size :: real
  spawn_positions :: "string \<rightharpoonup> Vector2D"

definition height :: "Map \<Rightarrow> int" where
  "height m = int (length (layout m))"

definition width :: "Map \<Rightarrow> int" where
  "width m = (if layout m = [] then 0 else int (length (hd (layout m))))"

definition is_wall :: "Map \<Rightarrow> Vector2D \<Rightarrow> py_exn + bool" where
  "is_wall m position =
     exn_bind (grid_coord (x position) (cell_size m)) (\<lambda>col.
     exn_bind (grid_coord (y position) (cell_size m)) (\<lambda>row.
       if row < 0 \<or> height m \<le> row \<or> col < 0 \<or> width m \<le> col then Inr True
       else exn_bind (py_getitem (layout m) row) (\<lambda>r.
            exn_bind (py_getitem r col) (\<lambda>c. Inr (c = 1)))))"

text \<open>
  The clearance half-extent per entity kind: \<open>object_size // 2.125\<close> for the player,
  \<open>object_size // 3\<close> for a ghost and for every other kind.
\<close>

definition half_size :: "real \<Rightarrow> string \<Rightarrow> real" where
  "half_size object_size kind =
     (if kind = ''player'' then of_int \<lfloor>object_size / (2125 / 1000)\<rfloor>
      else if kind = ''ghost'' then of_int \<lfloor>object_size / 3\<rfloor>
      else of_int \<lfloor>object_size / 3\<rfloor>)"

definition corners :: "Vector2D \<Rightarrow> real \<Rightarrow> Vector2D list" where
  "corners position h =
     [Vec (x position - h) (y position - h),
      Vec (x position + h) (y position - h),
      Vec (x position - h) (y position + h),
      Vec (x position + h) (y position + h)]"

text \<open>The loop over the corners: the first wall answers False, a raise propagates.\<close>

fun no_corner_in_wall :: "Map \<Rightarrow> Vector2D list \<Rightarrow> py_exn + bool" where
  "no_corner_in_wall m [] = Inr True"
| "no_corner_in_wall m (c # cs) =
     exn_bind (is_wall m c) (\<lambda>w. if w then Inr False else no_corner_in_wall m cs)"

definition is_valid_position :: "Map \<Rightarrow> Vector2D \<Rightarrow> real \<Rightarrow> string \<Rightarrow> py_exn + bool" where
  "is_valid_position m position object_size kind =
     no_corner_in_wall m (corners position (half_size object_size kind))"

definition remove_pellet_at :: "Map \<Rightarrow> Vector2D \<Rightarrow> py_exn + (bool \<times> Map)" where
  "remove_pellet_at m position =
     exn_bind (grid_coord (x position) (cell_size m)) (\<lambda>col.
     exn_bind (grid_coord (y position) (cell_size m)) (\<lambda>row.
       if 0 \<le> row \<and> row < height m \<and> 0 \<le> col \<and> col < width m then
         exn_bind (py_getitem (layout m) row) (\<lambda>r.
         exn_bind (py_getitem r col) (\<lambda>c.
           if c = 2 \<or> c = 3 then
             exn_bind (py_setitem r col 0) (\<lambda>r'.
             exn_bind (py_setitem (layout m) row r') (\<lambda>l'.
               Inr (True, m\<lparr>layout := l'\<rparr>)))
           else Inr (False, m)))
       else Inr (False, m)))"

definition get_spawn_position :: "Map \<Rightarrow> string \<Rightarrow> Vector2D" where
  "get_spawn_position m entity_type =
     (case spawn_positions m entity_type of
        Some p \<Rightarrow> p
      | None \<Rightarrow> Vec (cell_size m) (cell_size m))"

text \<open>The cell code at a pixel position, when the position lies in a cell of the grid.\<close>

definition cell_at :: "Map \<Rightarrow> Vector2D \<Rightarrow> int option" where
  "cell_at m position =
     (case grid_coord (x position) (cell_size m) of
        Inl e \<Rightarrow> None
      | Inr col \<Rightarrow>
         (case grid_coord (y position) (cell_size m) of
            Inl e \<Rightarrow> None
          | Inr row \<Rightarrow>
             if 0 \<le> row \<and> row < height m \<and> 0 \<le> col \<and> col < width m then
               (case py_getitem (layout m) row of
                  Inl e \<Rightarrow> None
                | Inr r \<Rightarrow> (case py_getitem r col of Inl e \<Rightarrow> None | Inr c \<Rightarrow> Some c))
             else None))"

text \<open>
  A validated grid, as \<open>_validate_map_json\<close> accepts it: all rows as long as the first.
  The cell size is not validated by the loader; a zero cell size makes every query raise.
\<close>

definition wf_map :: "Map \<Rightarrow> bool" where
  "wf_map m \<longleftrightarrow>
     cell_size m \<noteq> 0 \<and> list_all (\<lambda>r. length r = length (hd (layout m))) (layout m)"


section \<open>Python numbers and \<open>Vector2D.normalize\<close> (src/utils.py)\<close>

text \<open>
  A Python float is an IEEE-754 binary64 value: a finite double, an infinity (the flag
  says whether it is negative) or a NaN. The sign of a zero is not represented; Python's
  \<open>==\<close> does not see it. A Python number is an int of any size or a float.
\<close>

datatype py_float = Finite real | Infinity bool | NaN


text \<open>Rounding to the nearest integer, a tie to the even one.\<close>

definition round_even :: "real \<Rightarrow> int" where
  "round_even m =
     (let f = \<lfloor>m\<rfloor>; d = m - of_int f in
      if d < 1 / 2 then f
      else if 1 / 2 < d then f + 1
      else if even f then f else f + 1)"

text \<open>
  The binary exponent of the double nearest to a non-zero real, not below that of the
  subnormal numbers; a double is a whole multiple, below \<open>2^53\<close> in size, of
  \<open>2^(exponent - 52)\<close>.
\<close>

definition double_exponent :: "real \<Rightarrow> int" where
  "double_exponent r = max \<lfloor>log 2 \<bar>r\<bar>\<rfloor> (- 1022)"

text \<open>
  Round to nearest, ties to even, as every arithmetic operation on doubles does: a result
  of size \<open>2^1024\<close> or more is an infinity, one below half the smallest subnormal
  \<open>2^(-1074)\<close> is zero.
\<close>

definition double_round :: "real \<Rightarrow> py_float" where
  "double_round r =
     (if r = 0 then Finite 0
      else
        (let q = 2 powr of_int (double_exponent r - 52);
             v = of_int (round_even (r / q)) * q
         in if 2 powr 1024 \<le> \<bar>v\<bar> then Infinity (r < 0) else Finite v))"














section \<open>Pathfinding engine (src/utils.py)\<close>

text \<open>
  A search node: position, the three costs, and the parent node the path came from
  (\<open>None\<close> for the start node). The constructor of the source computes \<open>f_cost\<close>.
\<close>

datatype AStarNode =
  AStarNode (node_position: Vector2D) (g_cost: real) (h_cost: real) (f_cost: real)
    (node_parent: "AStarNode option")

definition make_node :: "Vector2D \<Rightarrow> real \<Rightarrow> real \<Rightarrow> AStarNode option \<Rightarrow> AStarNode" where
  "make_node p g h par = AStarNode p g h (g + h) par"

text \<open>\<open>__lt__\<close>, the comparison the priority queue uses.\<close>

definition node_lt :: "AStarNode \<Rightarrow> AStarNode \<Rightarrow> bool" where
  "node_lt a b \<longleftrightarrow> f_cost a < f_cost b"

definition heuristic :: "Vector2D \<Rightarrow> Vector2D \<Rightarrow> string \<Rightarrow> real" where
  "heuristic pos1 pos2 heuristic_type =
     (if heuristic_type = ''manhattan'' then \<bar>x pos1 - x pos2\<bar> + \<bar>y pos1 - y pos2\<bar>
      else if heuristic_type = ''euclidean'' then distance_to pos1 pos2
      else if heuristic_type = ''diagonal'' then max \<bar>x pos1 - x pos2\<bar> \<bar>y pos1 - y pos2\<bar>
      else manhattan_distance_to pos1 pos2)"

definition get_neighbors :: "Vector2D \<Rightarrow> real \<Rightarrow> Vector2D list" where
  "get_neighbors position cell =
     map (\<lambda>(dx, dy). Vec (x position + dx) (y position + dy))
       [(0, - cell), (0, cell), (- cell, 0), (cell, 0)]"

subsection \<open>The priority queue: Python's \<open>heapq\<close> on a list\<close>

text \<open>
  \<open>heapq._siftdown\<close>: the item at \<open>pos\<close> moves towards the root while it is smaller than
  its parent. Every index read is in range when \<open>pos\<close> is.
\<close>

function siftdown_loop :: "AStarNode list \<Rightarrow> AStarNode \<Rightarrow> nat \<Rightarrow> nat \<Rightarrow> AStarNode list" where
  "siftdown_loop heap newitem startpos pos =
     (if startpos < pos then
        (let parentpos = (pos - 1) div 2; par = heap ! parentpos in
         if node_lt newitem par
         then siftdown_loop (heap[pos := par]) newitem startpos parentpos
         else heap[pos := newitem])
      else heap[pos := newitem])"
  by pat_completeness auto
termination
  by (relation "measure (\<lambda>(heap, newitem, startpos, pos). pos)") auto

declare siftdown_loop.simps [simp del]

definition siftdown :: "AStarNode list \<Rightarrow> nat \<Rightarrow> nat \<Rightarrow> AStarNode list" where
  "siftdown heap startpos pos = siftdown_loop heap (heap ! pos) startpos pos"

text \<open>
  \<open>heapq._siftup\<close>: the hole at \<open>pos\<close> moves down to a leaf, taking the smaller child each
  time; the item is then put into the leaf and sifted back towards \<open>pos\<close>.
\<close>

definition smaller_child :: "AStarNode list \<Rightarrow> nat \<Rightarrow> nat \<Rightarrow> nat" where
  "smaller_child heap childpos endpos =
     (let rightpos = childpos + 1 in
      if rightpos < endpos \<and> \<not> node_lt (heap ! childpos) (heap ! rightpos)
      then rightpos else childpos)"

function siftup_loop :: "AStarNode list \<Rightarrow> nat \<Rightarrow> nat \<Rightarrow> AStarNode list \<times> nat" where
  "siftup_loop heap pos endpos =
     (let childpos = 2 * pos + 1 in
      if childpos < endpos then
        (let childpos1 = smaller_child heap childpos endpos
         in siftup_loop (heap[pos := heap ! childpos1]) childpos1 endpos)
      else (heap, pos))"
  by pat_completeness auto
termination
  by (relation "measure (\<lambda>(heap, pos, endpos). endpos - pos)")
    (auto simp: Let_def smaller_child_def)

declare siftup_loop.simps [simp del]

definition siftup :: "AStarNode list \<Rightarrow> nat \<Rightarrow> AStarNode list" where
  "siftup heap pos =
     (let newitem = heap ! pos;
          (heap1, pos1) = siftup_loop heap pos (length heap)
      in siftdown (heap1[pos1 := newitem]) pos pos1)"

definition heappush :: "AStarNode list \<Rightarrow> AStarNode \<Rightarrow> AStarNode list" where
  "heappush heap item = siftdown (heap @ [item]) 0 (length heap)"

text \<open>\<open>heappop\<close> raises IndexError on an empty list, as \<open>list.pop\<close> does.\<close>

definition heappop :: "AStarNode list \<Rightarrow> py_exn + (AStarNode \<times> AStarNode list)" where
  "heappop heap =
     (if heap = [] then Inl IndexOutOfRange
      else (let lastelt = last heap; heap1 = butlast heap in
            if heap1 \<noteq> [] then Inr (heap1 ! 0, siftup (heap1[0 := lastelt]) 0)
            else Inr (lastelt, heap1)))"

subsection \<open>The search\<close>

fun path_back :: "AStarNode \<Rightarrow> Vector2D list" where
  "path_back (AStarNode p g h f par) =
     p # (case par of None \<Rightarrow> [] | Some n \<Rightarrow> path_back n)"

definition reconstruct_path :: "AStarNode \<Rightarrow> Vector2D list" where
  "reconstruct_path node = rev (path_back node)"

type_synonym pos_key = "real \<times> real"

definition pos_key :: "Vector2D \<Rightarrow> pos_key" where
  "pos_key p = (x p, y p)"

text \<open>
  The loop over the neighbours of the node taken from the queue: a neighbour that is
  closed or not valid for a ghost is skipped; one reached at a cost below the best known
  for its position is recorded and queued.
\<close>

fun scan_neighbors ::
  "Map \<Rightarrow> Vector2D \<Rightarrow> string \<Rightarrow> AStarNode \<Rightarrow> pos_key set \<Rightarrow> Vector2D list
   \<Rightarrow> AStarNode list \<times> (pos_key \<rightharpoonup> real)
   \<Rightarrow> py_exn + (AStarNode list \<times> (pos_key \<rightharpoonup> real))" where
  "scan_neighbors m goal ht cur closed_list [] st = Inr st"
| "scan_neighbors m goal ht cur closed_list (np # nps) (open_list, best_costs) =
     (if pos_key np \<in> closed_list
      then scan_neighbors m goal ht cur closed_list nps (open_list, best_costs)
      else exn_bind (is_valid_position m np 16 ''ghost'') (\<lambda>valid.
        if \<not> valid
        then scan_neighbors m goal ht cur closed_list nps (open_list, best_costs)
        else
          (let g = g_cost cur + 16;
               h = heuristic np goal ht
           in if (case best_costs (pos_key np) of None \<Rightarrow> True | Some b \<Rightarrow> g < b)
              then scan_neighbors m goal ht cur closed_list nps
                     (heappush open_list (make_node np g h (Some cur)),
                      best_costs(pos_key np \<mapsto> g))
              else scan_neighbors m goal ht cur closed_list nps (open_list, best_costs))))"

text \<open>
  The \<open>while open_list\<close> loop. The fuel bounds the number of iterations: \<open>None\<close> means the
  loop was still running when the fuel ran out, \<open>Some (Inl e)\<close> that an exception left
  it, \<open>Some (Inr path)\<close> that it returned \<open>path\<close>.
\<close>

fun astar_loop ::
  "nat \<Rightarrow> Map \<Rightarrow> Vector2D \<Rightarrow> string \<Rightarrow> AStarNode list \<Rightarrow> pos_key set
   \<Rightarrow> (pos_key \<rightharpoonup> real) \<Rightarrow> (py_exn + Vector2D list) option" where
  "astar_loop 0 m goal ht open_list closed_list best_costs = None"
| "astar_loop (Suc n) m goal ht open_list closed_list best_costs =
     (if open_list = [] then Some (Inr [])
      else
        (case heappop open_list of
           Inl e \<Rightarrow> Some (Inl e)
         | Inr (cur, open1) \<Rightarrow>
             if distance_to (node_position cur) goal < 8
             then Some (Inr (reconstruct_path cur))
             else
               (let closed_list1 = insert (pos_key (node_position cur)) closed_list in
                case scan_neighbors m goal ht cur closed_list1
                       (get_neighbors (node_position cur) 16) (open1, best_costs) of
                  Inl e \<Rightarrow> Some (Inl e)
                | Inr (open2, best2) \<Rightarrow> astar_loop n m goal ht open2 closed_list1 best2)))"

definition find_path ::
  "nat \<Rightarrow> Vector2D \<Rightarrow> Vector2D \<Rightarrow> Map \<Rightarrow> string \<Rightarrow> (py_exn + Vector2D list) option" where
  "find_path fuel start goal m ht =
     astar_loop fuel m goal ht
       (heappush [] (make_node start 0 (heuristic start goal ht) None))
       {} [pos_key start \<mapsto> 0]"

text \<open>
  One step of a path: the two waypoints differ by exactly \<open>d\<close> along one axis and not at
  all along the other.
\<close>

definition grid_step :: "real \<Rightarrow> Vector2D \<Rightarrow> Vector2D \<Rightarrow> bool" where
  "grid_step d a b \<longleftrightarrow>
     (x b = x a \<and> \<bar>y b - y a\<bar> = d) \<or> (y b = y a \<and> \<bar>x b - x a\<bar> = d)"


section \<open>Entity movement model (src/game_objects.py)\<close>

text \<open>\<open>sprite_manager.base_sprite_size\<close>, the constant 16 of src/sprite_manager.py.\<close>

definition base_sprite_size :: real where
  "base_sprite_size = 16"

record GameObject =
  position :: Vector2D
  size_px :: real
  animation_frame :: nat

record MovableObject = GameObject +
  speed :: real
  direction :: Direction
  next_direction :: Direction

record Player = MovableObject +
  lives :: int
  score :: int
  power_up_active :: bool
  power_up_timer :: real
  power_up_duration :: real

definition step_pos :: "Vector2D \<Rightarrow> Direction \<Rightarrow> real \<Rightarrow> Vector2D" where
  "step_pos p d s = Vec (x p + fst (dir_value d) * s) (y p + snd (dir_value d) * s)"

text \<open>
  \<open>MovableObject.can_move\<close>: without an entity type the clearance of the kind
  \<open>default\<close> is used. The player and the ghosts override it to pass their own kind.
\<close>

definition can_move ::
  "'a MovableObject_scheme \<Rightarrow> Direction \<Rightarrow> Map \<Rightarrow> string option \<Rightarrow> py_exn + bool" where
  "can_move ob d game_map entity_type =
     (if d = NONE then Inr False
      else is_valid_position game_map (step_pos (position ob) d (speed ob))
             base_sprite_size
             (case entity_type of None \<Rightarrow> ''default'' | Some t \<Rightarrow> t))"

definition player_can_move :: "Player \<Rightarrow> Direction \<Rightarrow> Map \<Rightarrow> py_exn + bool" where
  "player_can_move p d game_map = can_move p d game_map (Some ''player'')"

text \<open>\<open>move()\<close> with the default argument: one step along the committed direction.\<close>

definition move :: "'a MovableObject_scheme \<Rightarrow> 'a MovableObject_scheme" where
  "move ob =
     (if direction ob \<noteq> NONE
      then ob\<lparr>position := vadd (position ob)
                  (Vec (fst (dir_value (direction ob)) * speed ob)
                       (snd (dir_value (direction ob)) * speed ob))\<rparr>
      else ob)"

definition lose_life :: "Player \<Rightarrow> Player" where
  "lose_life p =
     (let p1 = p\<lparr>lives := lives p - 1\<rparr> in
      if lives p1 < 0 then p1\<lparr>lives := 0\<rparr> else p1)"

definition eat_pellet :: "Player \<Rightarrow> int \<Rightarrow> Player" where
  "eat_pellet p pellet_value = p\<lparr>score := score p + pellet_value\<rparr>"

definition tick_power_up :: "real \<Rightarrow> Player \<Rightarrow> Player" where
  "tick_power_up delta_time p =
     (if power_up_active p then
        (let p1 = p\<lparr>power_up_timer := power_up_timer p - delta_time * 1000\<rparr> in
         if power_up_timer p1 \<le> 0
         then p1\<lparr>power_up_active := False, power_up_timer := 0\<rparr>
         else p1)
      else p)"

text \<open>The first phase of \<open>Player.update\<close>: take the requested turn, or stop.\<close>

definition resolve_turn :: "Map \<Rightarrow> Player \<Rightarrow> py_exn + Player" where
  "resolve_turn game_map p =
     (if next_direction p \<noteq> direction p then
        exn_bind (player_can_move p (next_direction p) game_map) (\<lambda>ok.
          if ok then Inr (p\<lparr>direction := next_direction p\<rparr>)
          else exn_bind (player_can_move p (direction p) game_map) (\<lambda>ok2.
                 if \<not> ok2 then Inr (p\<lparr>direction := NONE\<rparr>) else Inr p))
      else Inr p)"

text \<open>The second phase: advance, or fall back to the requested direction, or stop.\<close>

definition advance :: "Map \<Rightarrow> Player \<Rightarrow> py_exn + Player" where
  "advance game_map p =
     exn_bind (player_can_move p (direction p) game_map) (\<lambda>ok.
       if ok then Inr (move p)
       else if next_direction p \<noteq> direction p then
         exn_bind (player_can_move p (next_direction p) game_map) (\<lambda>ok2.
           if ok2 then Inr (move (p\<lparr>direction := next_direction p\<rparr>))
           else Inr (p\<lparr>direction := NONE\<rparr>))
       else Inr (p\<lparr>direction := NONE\<rparr>))"

definition update_player :: "real \<Rightarrow> Map \<Rightarrow> Player \<Rightarrow> py_exn + Player" where
  "update_player delta_time game_map p =
     exn_bind (resolve_turn game_map (tick_power_up delta_time p)) (\<lambda>p2.
     exn_bind (advance game_map p2) (\<lambda>p3.
       Inr (p3\<lparr>animation_frame := animation_frame p3 + 1\<rparr>)))"

section \<open>Ghost behaviour (src/game_objects.py)\<close>

record Ghost = MovableObject +
  state :: string
  initial_position :: Vector2D
  ghost_type :: string
  vulnerable_timer :: real
  mode_timer :: real
  current_mode :: string
  current_path :: "Vector2D list"
  path_index :: nat
  recalculate_path_timer :: real
  astar_frequency :: int
  last_target :: "Vector2D option"
  patrol_index :: nat
  patrol_timer :: real
  base_speed :: real
  difficulty_multiplier :: real
  is_in_spawn_delay :: bool
  spawn_delay_timer :: real
  spawn_delay_duration :: real

text \<open>Python's \<open>int(r)\<close> on a float: truncation towards zero.\<close>

definition py_int :: "real \<Rightarrow> int" where
  "py_int r = (if 0 \<le> r then \<lfloor>r\<rfloor> else \<lceil>r\<rceil>)"

definition ghost_can_move :: "Ghost \<Rightarrow> Direction \<Rightarrow> Map \<Rightarrow> py_exn + bool" where
  "ghost_can_move g d game_map = can_move g d game_map (Some ''ghost'')"

definition set_difficulty :: "int \<Rightarrow> Ghost \<Rightarrow> Ghost" where
  "set_difficulty difficulty_level g =
     (let difficulty_factor = min (of_int difficulty_level / 100) (2::real);
          timing_factor = 1 - difficulty_factor * (4 / 10)
      in g\<lparr>speed := base_speed g,
            astar_frequency := max (py_int (2000 * timing_factor)) 200,
            difficulty_multiplier := 1 + difficulty_factor\<rparr>)"

definition get_difficulty_adjusted_vulnerable_duration :: "Ghost \<Rightarrow> real \<Rightarrow> int" where
  "get_difficulty_adjusted_vulnerable_duration g base_duration =
     (let reduction_factor = 1 - (difficulty_multiplier g - 1) * (85 / 100);
          adjusted_duration = py_int (base_duration * reduction_factor)
      in max adjusted_duration 1000)"

definition get_difficulty_adjusted_mode_timing :: "Ghost \<Rightarrow> int \<times> int" where
  "get_difficulty_adjusted_mode_timing g =
     (let base_patrol = 10000; base_chase = 15000;
          difficulty_factor = difficulty_multiplier g - 1;
          patrol_duration = py_int (base_patrol * (1 - difficulty_factor * (45 / 100)));
          chase_duration = py_int (base_chase * (1 + difficulty_factor * (8 / 10)))
      in (max patrol_duration 2000, min chase_duration 40000))"

definition set_vulnerable :: "Ghost \<Rightarrow> real \<Rightarrow> Ghost" where
  "set_vulnerable g duration =
     g\<lparr>speed := max 1 (speed g - 1),
       state := ''vulnerable'',
       vulnerable_timer := of_int (get_difficulty_adjusted_vulnerable_duration g duration)\<rparr>"

text \<open>
  The candidate list of \<open>choose_direction\<close>: each unobstructed direction, in the order it
  is tried, with the distance from the position one step along it to the target.
\<close>

fun possible_directions ::
  "Ghost \<Rightarrow> Map \<Rightarrow> Vector2D \<Rightarrow> Direction list \<Rightarrow> py_exn + (Direction \<times> real) list" where
  "possible_directions g game_map target [] = Inr []"
| "possible_directions g game_map target (d # ds) =
     exn_bind (ghost_can_move g d game_map) (\<lambda>ok.
     exn_bind (possible_directions g game_map target ds) (\<lambda>rest.
       Inr (if ok
            then (d, distance_to (step_pos (position g) d (speed g)) target) # rest
            else rest)))"

text \<open>
  Python's \<open>max(xs, key=k)\<close> and \<open>min(xs, key=k)\<close> keep the first of several extremal
  elements: the running best is replaced only by a strictly better one.
\<close>

fun py_max_key :: "('a \<Rightarrow> real) \<Rightarrow> 'a \<Rightarrow> 'a list \<Rightarrow> 'a" where
  "py_max_key k best [] = best"
| "py_max_key k best (z # zs) = py_max_key k (if k best < k z then z else best) zs"

fun py_min_key :: "('a \<Rightarrow> real) \<Rightarrow> 'a \<Rightarrow> 'a list \<Rightarrow> 'a" where
  "py_min_key k best [] = best"
| "py_min_key k best (z # zs) = py_min_key k (if k z < k best then z else best) zs"

definition choose_direction :: "Ghost \<Rightarrow> Map \<Rightarrow> Vector2D \<Rightarrow> py_exn + Direction" where
  "choose_direction g game_map target =
     exn_bind (possible_directions g game_map target [UP, DOWN, LEFT, RIGHT]) (\<lambda>ps.
       case ps of
         [] \<Rightarrow> Inr NONE
       | q # qs \<Rightarrow>
           if state g = ''vulnerable'' then Inr (fst (py_max_key snd q qs))
           else Inr (fst (py_min_key snd q qs)))"

text \<open>The distance \<open>choose_direction\<close> compares: from one step along \<open>d\<close> to the target.\<close>

definition distance_after :: "Ghost \<Rightarrow> Vector2D \<Rightarrow> Direction \<Rightarrow> real" where
  "distance_after g target d = distance_to (step_pos (position g) d (speed g)) target"

definition reset_position :: "Ghost \<Rightarrow> Ghost" where
  "reset_position g =
     g\<lparr>position := initial_position g, speed := base_speed g, state := ''normal'',
       vulnerable_timer := 0, mode_timer := 0, current_mode := ''patrol'',
       current_path := [], path_index := 0, recalculate_path_timer := 0,
       last_target := None, patrol_index := 0, patrol_timer := 0,
       is_in_spawn_delay := False, spawn_delay_timer := 0\<rparr>"

definition set_eaten_with_delay :: "Ghost \<Rightarrow> Ghost" where
  "set_eaten_with_delay g =
     g\<lparr>position := initial_position g, speed := base_speed g, state := ''normal'',
       vulnerable_timer := 0, mode_timer := 0, current_mode := ''patrol'',
       current_path := [], path_index := 0, recalculate_path_timer := 0,
       last_target := None, patrol_index := 0, patrol_timer := 0,
       is_in_spawn_delay := True, spawn_delay_timer := spawn_delay_duration g\<rparr>"

text \<open>
  The head of \<open>Ghost.update\<close>: the spawn-delay countdown, which ends the update while it
  runs (the flag returned is False then), and the vulnerability countdown. The rest of
  the update (mode switching, targeting, movement) does not assign the state or the speed.
\<close>

definition update_timers :: "real \<Rightarrow> Ghost \<Rightarrow> Ghost \<times> bool" where
  "update_timers delta_time g =
     (let (g1, continue) =
            (if is_in_spawn_delay g then
               (let g' = g\<lparr>spawn_delay_timer := spawn_delay_timer g - delta_time * 1000\<rparr> in
                if spawn_delay_timer g' \<le> 0
                then (g'\<lparr>is_in_spawn_delay := False, spawn_delay_timer := 0\<rparr>, True)
                else (g'\<lparr>animation_frame := animation_frame g' + 1\<rparr>, False))
             else (g, True))
      in if \<not> continue then (g1, False)
         else if state g1 = ''vulnerable'' then
           (let g2 = g1\<lparr>vulnerable_timer := vulnerable_timer g1 - delta_time * 1000\<rparr> in
            if vulnerable_timer g2 \<le> 0
            then (g2\<lparr>speed := 15 / 10, state := ''normal''\<rparr>, True)
            else (g2, True))
         else (g1, True))"

section \<open>Round controller: ghost collisions (main.py)\<close>

datatype GameState =
  MENU | PLAYING | GAME_OVER | PAUSED | VICTORY | OPTIONS | HISTORY | INTERMISSION

datatype sound_event = StopAllSounds | PlaySound string

text \<open>
  The part of the controller that the ghost-collision loop reads and writes. The sound
  manager and \<open>pygame.time.wait\<close> are outside the repository's logic: the cues requested
  and the milliseconds waited are logged.
\<close>

record Game =
  game_state :: GameState
  player :: Player
  ghosts :: "Ghost list"
  game_map :: Map
  input_active :: bool
  player_name :: string
  show_save_confirmation :: bool
  sounds :: "sound_event list"
  waited_ms :: nat

definition set_game_over :: "Game \<Rightarrow> Game" where
  "set_game_over gm =
     gm\<lparr>game_state := GAME_OVER, input_active := True, player_name := [],
        show_save_confirmation := False\<rparr>"

definition reset_positions :: "Game \<Rightarrow> Game" where
  "reset_positions gm =
     gm\<lparr>player := (player gm)\<lparr>position := get_spawn_position (game_map gm) ''player''\<rparr>,
        ghosts := map reset_position (ghosts gm)\<rparr>"

definition collision_radius :: real where
  "collision_radius = of_int \<lfloor>base_sprite_size / 2\<rfloor>"

text \<open>The body of the loop over the ghosts, for the ghost at index \<open>i\<close>.\<close>

definition collide_with_ghost :: "nat \<Rightarrow> Game \<Rightarrow> Game" where
  "collide_with_ghost i gm =
     (let ghost = ghosts gm ! i;
          distance = distance_to (position (player gm)) (position ghost)
      in if distance < collision_radius then
           if state ghost = ''vulnerable'' then
             gm\<lparr>player := eat_pellet (player gm) 200,
                ghosts := (ghosts gm)[i := set_eaten_with_delay ghost],
                sounds := sounds gm @ [PlaySound ''eating-ghost'']\<rparr>
           else if state ghost = ''normal'' then
             (let gm1 = gm\<lparr>player := lose_life (player gm),
                            sounds := sounds gm @ [PlaySound ''miss'']\<rparr>
              in if lives (player gm1) \<le> 0 then
                   (let gm2 = set_game_over gm1
                    in gm2\<lparr>sounds := sounds gm2 @ [StopAllSounds, PlaySound ''miss'']\<rparr>)
                 else
                   (let gm2 = reset_positions gm1
                    in gm2\<lparr>waited_ms := waited_ms gm2 + 1000\<rparr>))
           else gm
         else gm)"

definition resolve_ghost_collisions :: "Game \<Rightarrow> Game" where
  "resolve_ghost_collisions gm = fold collide_with_ghost [0..<length (ghosts gm)] gm"


section \<open>Concrete mazes and entities\<close>

definition box_map :: Map where
  "box_map = \<lparr>layout = [[1, 1, 1], [1, 0, 1], [1, 1, 1]], cell_size = 16,
               spawn_positions = (\<lambda>_. None)\<rparr>"

definition pellet_map :: Map where
  "pellet_map = \<lparr>layout = [[1, 1, 1], [1, 2, 1], [1, 1, 1]], cell_size = 16,
                  spawn_positions = (\<lambda>_. None)\<rparr>"

definition open_map :: Map where
  "open_map = \<lparr>layout = [[1, 1, 1, 1, 1], [1, 0, 0, 0, 1], [1, 0, 0, 0, 1],
                          [1, 0, 0, 0, 1], [1, 1, 1, 1, 1]],
                cell_size = 16, spawn_positions = (\<lambda>_. None)\<rparr>"

definition player_at :: "Vector2D \<Rightarrow> Direction \<Rightarrow> Direction \<Rightarrow> Player" where
  "player_at p d nd =
     \<lparr>position = p, size_px = 16, animation_frame = 0, speed = 2, direction = d,
      next_direction = nd, lives = 3, score = 0, power_up_active = False,
      power_up_timer = 0, power_up_duration = 5000\<rparr>"

definition ghost_at :: "Vector2D \<Rightarrow> real \<Rightarrow> string \<Rightarrow> Ghost" where
  "ghost_at p s st =
     \<lparr>position = p, size_px = 16, animation_frame = 0, speed = s, direction = NONE,
      next_direction = NONE, state = st, initial_position = p, ghost_type = ''red'',
      vulnerable_timer = 0, mode_timer = 0, current_mode = ''chase'', current_path = [],
      path_index = 0, recalculate_path_timer = 0, astar_frequency = 2000,
      last_target = None, patrol_index = 0, patrol_timer = 0, base_speed = s,
      difficulty_multiplier = 1, is_in_spawn_delay = False, spawn_delay_timer = 0,
      spawn_delay_duration = 5000\<rparr>"

definition last_life_game :: Game where
  "last_life_game =
     \<lparr>game_state = PLAYING,
      player = (player_at (Vec 40 40) RIGHT RIGHT)\<lparr>lives := 1\<rparr>,
      ghosts = [ghost_at (Vec 40 38) 1 ''vulnerable'', ghost_at (Vec 40 44) (3 / 2) ''normal''],
      game_map = open_map, input_active = False, player_name = [],
      show_save_confirmation = False, sounds = [], waited_ms = 0\<rparr>"

definition wide_map :: Map where
  "wide_map = \<lparr>layout = [[1, 1, 1, 1], [1, 0, 0, 1], [1, 1, 1, 1]], cell_size = 32,
                spawn_positions = (\<lambda>_. None)\<rparr>"







section \<open>Predicates used in the proofs about the collision loop\<close>

text \<open>
  \<open>defeated\<close>: the round is lost, the player stands where it stood (\<open>p0\<close>) and no wait
  beyond \<open>w0\<close> has happened. \<open>last_life\<close>: one life is left, nothing has been reset, and
  the ghost at index \<open>i\<close> is still \<open>gh\<close>.
\<close>

definition defeated :: "Vector2D \<Rightarrow> nat \<Rightarrow> Game \<Rightarrow> bool" where
  "defeated p0 w0 gm \<longleftrightarrow>
     lives (player gm) = 0 \<and> game_state gm = GAME_OVER
     \<and> position (player gm) = p0 \<and> waited_ms gm = w0"

definition last_life :: "Vector2D \<Rightarrow> nat \<Rightarrow> Ghost \<Rightarrow> nat \<Rightarrow> Game \<Rightarrow> bool" where
  "last_life p0 w0 gh i gm \<longleftrightarrow>
     lives (player gm) = 1 \<and> position (player gm) = p0 \<and> waited_ms gm = w0
     \<and> ghosts gm ! i = gh"

section \<open>Predicates used in the proofs about the search\<close>

text \<open>
  \<open>rooted\<close>: following the parents of a node leads to the start, by steps of 16 pixels
  along one axis.
\<close>

definition rooted :: "Vector2D \<Rightarrow> AStarNode \<Rightarrow> bool" where
  "rooted start nd \<longleftrightarrow>
     last (path_back nd) = start \<and> successively (\<lambda>a b. grid_step 16 b a) (path_back nd)"

text \<open>
  \<open>on_grid\<close>: a position is a whole number of 16-pixel steps away from the start along
  each axis. \<open>queued_ok\<close>: what holds of every queued node. \<open>reach_keys\<close>: the positions
  on that grid that are valid for a ghost, the only ones the search can queue.
  \<open>cost_rank\<close>: the recorded cost of a position, counted in steps.
\<close>

definition on_grid :: "Vector2D \<Rightarrow> Vector2D \<Rightarrow> bool" where
  "on_grid start p \<longleftrightarrow>
     (\<exists>i j :: int. x p = x start + 16 * of_int i \<and> y p = y start + 16 * of_int j)"

definition queued_ok :: "Vector2D \<Rightarrow> AStarNode \<Rightarrow> bool" where
  "queued_ok start nd \<longleftrightarrow>
     on_grid start (node_position nd) \<and> (\<exists>n :: nat. g_cost nd = 16 * real n)"

definition reach_keys :: "Map \<Rightarrow> Vector2D \<Rightarrow> pos_key set" where
  "reach_keys m start =
     {k. on_grid start (Vec (fst k) (snd k))
         \<and> is_valid_position m (Vec (fst k) (snd k)) 16 ''ghost'' = Inr True}"

definition cost_rank :: "(pos_key \<rightharpoonup> real) \<Rightarrow> pos_key \<Rightarrow> nat" where
  "cost_rank best k = (case best k of None \<Rightarrow> 0 | Some v \<Rightarrow> nat \<lceil>v / 16\<rceil>)"

text \<open>
  \<open>search_measure\<close>: how many reachable positions have no recorded cost yet, and the sum
  of the recorded costs in steps. Every node queued makes it smaller, lexicographically.
\<close>

definition search_measure :: "pos_key set \<Rightarrow> (pos_key \<rightharpoonup> real) \<Rightarrow> nat \<times> nat" where
  "search_measure F best = (card (F - dom best), sum (cost_rank best) F)"

section \<open>Predicates used in the proofs about Python numbers\<close>




section \<open>Facts about the geometry kernel\<close>

lemma magnitude_zero_iff: "magnitude v = 0 \<longleftrightarrow> x v = 0 \<and> y v = 0"
proof -
  have "x v * x v + y v * y v = 0 \<longleftrightarrow> x v = 0 \<and> y v = 0"
    by (simp add: sum_squares_eq_zero_iff)
  then show ?thesis
    by (simp add: magnitude_def)
qed

lemma magnitude_nonneg: "0 \<le> magnitude v"
  by (simp add: magnitude_def)


section \<open>Facts about the maze and collision service\<close>

lemma exn_bind_Inr [simp]: "exn_bind (Inr v) f = f v"
  by (simp add: exn_bind_def)

lemma exn_bind_Inl [simp]: "exn_bind (Inl e) f = Inl e"
  by (simp add: exn_bind_def)

lemma py_getitem_in_range:
  "0 \<le> i \<Longrightarrow> i < int (length xs) \<Longrightarrow> py_getitem xs i = Inr (xs ! nat i)"
  by (simp add: py_getitem_def Let_def)

lemma py_setitem_in_range:
  "0 \<le> i \<Longrightarrow> i < int (length xs) \<Longrightarrow> py_setitem xs i v = Inr (xs[nat i := v])"
  by (simp add: py_setitem_def Let_def)

lemma cell_at_SomeD:
  assumes "cell_at m p = Some c"
  shows "cell_size m \<noteq> 0
    \<and> 0 \<le> \<lfloor>y p / cell_size m\<rfloor> \<and> \<lfloor>y p / cell_size m\<rfloor> < int (length (layout m))
    \<and> 0 \<le> \<lfloor>x p / cell_size m\<rfloor> \<and> \<lfloor>x p / cell_size m\<rfloor> < width m
    \<and> \<lfloor>x p / cell_size m\<rfloor> < int (length (layout m ! nat \<lfloor>y p / cell_size m\<rfloor>))
    \<and> c = layout m ! nat \<lfloor>y p / cell_size m\<rfloor> ! nat \<lfloor>x p / cell_size m\<rfloor>"
  using assms
  by (auto simp: cell_at_def grid_coord_def height_def py_getitem_def Let_def
      split: if_splits sum.splits)

text \<open>
  Claim C2. When the cell of a position holds a pellet (2) or a power-up (3), the first
  \<open>remove_pellet_at\<close> answers True and leaves a maze that differs only in that cell, now
  empty (0); a second call at the same position answers False and returns the maze as
  it is.
\<close>

theorem remove_pellet_idempotent:
  assumes "cell_at m p = Some c" and "c = 2 \<or> c = 3"
  shows "\<exists>m'. remove_pellet_at m p = Inr (True, m')
           \<and> m' = m\<lparr>layout := (layout m)[nat \<lfloor>y p / cell_size m\<rfloor> :=
                      (layout m ! nat \<lfloor>y p / cell_size m\<rfloor>)[nat \<lfloor>x p / cell_size m\<rfloor> := 0]]\<rparr>
           \<and> cell_at m' p = Some 0
           \<and> remove_pellet_at m' p = Inr (False, m')"
proof -
  define row where "row = \<lfloor>y p / cell_size m\<rfloor>"
  define col where "col = \<lfloor>x p / cell_size m\<rfloor>"
  define r where "r = layout m ! nat row"
  define m' where "m' = m\<lparr>layout := (layout m)[nat row := r[nat col := 0]]\<rparr>"
  from cell_at_SomeD [OF assms(1)]
  have cs: "cell_size m \<noteq> 0" and row: "0 \<le> row" "row < int (length (layout m))"
    and col: "0 \<le> col" "col < width m" "col < int (length r)" and c: "c = r ! nat col"
    by (simp_all add: row_def col_def r_def)
  have gr: "py_getitem (layout m) row = Inr r"
    using row by (simp add: py_getitem_in_range r_def)
  have gc: "py_getitem r col = Inr c"
    using col c by (simp add: py_getitem_in_range)
  have first: "remove_pellet_at m p = Inr (True, m')"
    using cs row col gr gc assms(2)
    unfolding remove_pellet_at_def grid_coord_def m'_def
    by (auto simp: height_def py_setitem_in_range row_def [symmetric] col_def [symmetric])
  have ne: "layout m \<noteq> []" using row by auto
  have w': "width m' = width m"
  proof (cases "nat row = 0")
    case True
    have "hd ((layout m)[0 := r[nat col := 0]]) = r[nat col := 0]"
      using ne by (cases "layout m") simp_all
    moreover have "hd (layout m) = r"
      using ne True by (simp add: r_def hd_conv_nth)
    ultimately show ?thesis
      using ne True by (simp add: width_def m'_def)
  next
    case False
    then have "hd ((layout m)[nat row := r[nat col := 0]]) = hd (layout m)"
      using ne by (cases "layout m"; cases "nat row") simp_all
    then show ?thesis
      using ne by (simp add: width_def m'_def)
  qed
  have h': "height m' = height m" by (simp add: height_def m'_def)
  have cs': "cell_size m' = cell_size m" by (simp add: m'_def)
  have gr': "py_getitem (layout m') row = Inr (r[nat col := 0])"
    using row by (simp add: py_getitem_in_range m'_def)
  have gc': "py_getitem (r[nat col := 0]) col = Inr 0"
    using col by (simp add: py_getitem_in_range)
  have cell: "cell_at m' p = Some 0"
    using cs row col gr' gc' w' h'
    by (simp add: cell_at_def grid_coord_def cs' height_def row_def [symmetric] col_def [symmetric])
  have second: "remove_pellet_at m' p = Inr (False, m')"
    using cs row col gr' gc' w' h'
    by (simp add: remove_pellet_at_def grid_coord_def cs' height_def
        row_def [symmetric] col_def [symmetric])
  have "m' = m\<lparr>layout := (layout m)[nat \<lfloor>y p / cell_size m\<rfloor> :=
                      (layout m ! nat \<lfloor>y p / cell_size m\<rfloor>)[nat \<lfloor>x p / cell_size m\<rfloor> := 0]]\<rparr>"
    by (simp add: m'_def r_def row_def col_def)
  with first cell second show ?thesis by blast
qed

lemma pellet_cell: "cell_at pellet_map (Vec 24 24) = Some 2"
  by (simp add: cell_at_def grid_coord_def pellet_map_def Vec_def height_def width_def
      py_getitem_def)

theorem remove_pellet_idempotent_witness:
  "cell_at pellet_map (Vec 24 24) = Some 2
   \<and> (\<exists>m'. remove_pellet_at pellet_map (Vec 24 24) = Inr (True, m')
           \<and> cell_at m' (Vec 24 24) = Some 0
           \<and> remove_pellet_at m' (Vec 24 24) = Inr (False, m'))"
  using remove_pellet_idempotent [of pellet_map "Vec 24 24" 2] pellet_cell
  by auto

lemma no_corner_in_wall_True:
  "no_corner_in_wall m cs = Inr True \<longleftrightarrow> (\<forall>c \<in> set cs. is_wall m c = Inr False)"
  by (induction cs) (auto simp: exn_bind_def split: sum.splits)

lemma no_corner_in_wall_False:
  "no_corner_in_wall m cs = Inr False \<Longrightarrow> \<exists>c \<in> set cs. is_wall m c = Inr True"
  by (induction cs) (auto simp: exn_bind_def split: sum.splits if_splits)

lemma half_size_other: "kind \<noteq> ''player'' \<Longrightarrow> half_size s kind = half_size s ''ghost''"
  by (simp add: half_size_def)

lemma half_size_player_gt:
  assumes "7 \<le> s"
  shows "half_size s ''ghost'' < half_size s ''player''"
proof -
  have "\<lfloor>s / 3\<rfloor> < \<lfloor>s / (2125 / 1000)\<rfloor>"
  proof (cases "s < 8")
    case True
    have "\<lfloor>s / 3\<rfloor> = 2" using assms True by (simp add: floor_eq_iff)
    moreover have "\<lfloor>s / (2125 / 1000)\<rfloor> = 3" using assms True by (simp add: floor_eq_iff)
    ultimately show ?thesis by simp
  next
    case False
    have "s / 3 + 1 \<le> s / (2125 / 1000)" using False by simp
    then have "\<lfloor>s / 3 + 1\<rfloor> \<le> \<lfloor>s / (2125 / 1000)\<rfloor>" by (rule floor_mono)
    then show ?thesis by simp
  qed
  then show ?thesis by (simp add: half_size_def)
qed

text \<open>
  Claim C6, as stated, fails: at the game's object size 16 the half-extent of a ghost and
  that of any other kind are both 5, so the other kinds are not strictly looser.
\<close>

theorem clearance_counterexample:
  "half_size 16 ''ghost'' = 5 \<and> half_size 16 ''pellet'' = 5
   \<and> \<not> half_size 16 ''pellet'' < half_size 16 ''ghost''"
  by (simp add: half_size_def)

text \<open>
  Claim C6, amended. For an object size of at least 7 the player's half-extent is
  strictly larger than a ghost's; every kind other than the player has the ghost's
  half-extent; and \<open>is_valid_position\<close> answers True exactly when none of the four corners
  of the bounding box is a wall, and answers False only when some corner is a wall.
\<close>

theorem clearance_amended:
  "(7 \<le> s \<longrightarrow> half_size s ''ghost'' < half_size s ''player'')
   \<and> (kind \<noteq> ''player'' \<longrightarrow> half_size s kind = half_size s ''ghost'')
   \<and> (is_valid_position m p s kind = Inr True
        \<longleftrightarrow> (\<forall>c \<in> set (corners p (half_size s kind)). is_wall m c = Inr False))
   \<and> (is_valid_position m p s kind = Inr False
        \<longrightarrow> (\<exists>c \<in> set (corners p (half_size s kind)). is_wall m c = Inr True))"
  using half_size_player_gt [of s] half_size_other [of kind s]
    no_corner_in_wall_True [of m "corners p (half_size s kind)"]
    no_corner_in_wall_False [of m "corners p (half_size s kind)"]
  by (simp add: is_valid_position_def)

lemma box_valid: "is_valid_position box_map (Vec 24 24) 16 ''ghost'' = Inr True"
  by (simp add: is_valid_position_def half_size_def corners_def is_wall_def grid_coord_def
      box_map_def Vec_def height_def width_def py_getitem_def)

lemma box_invalid: "is_valid_position box_map (Vec 24 18) 16 ''ghost'' = Inr False"
  by (simp add: is_valid_position_def half_size_def corners_def is_wall_def grid_coord_def
      box_map_def Vec_def height_def width_def py_getitem_def)

theorem clearance_amended_witness:
  "(7::real) \<le> 16 \<and> half_size 16 ''ghost'' < half_size 16 ''player''
   \<and> ''pellet'' \<noteq> ''player'' \<and> half_size 16 ''pellet'' = half_size 16 ''ghost''
   \<and> is_valid_position box_map (Vec 24 24) 16 ''ghost'' = Inr True
   \<and> map (is_wall box_map) (corners (Vec 24 24) (half_size 16 ''ghost''))
       = [Inr False, Inr False, Inr False, Inr False]
   \<and> is_valid_position box_map (Vec 24 18) 16 ''ghost'' = Inr False
   \<and> (\<exists>c \<in> set (corners (Vec 24 18) (half_size 16 ''ghost'')). is_wall box_map c = Inr True)"
  using clearance_amended [of 16 "''pellet''" box_map "Vec 24 24"]
    clearance_amended [of 16 "''ghost''" box_map "Vec 24 24"]
    clearance_amended [of 16 "''ghost''" box_map "Vec 24 18"]
    box_valid box_invalid
  by (simp add: corners_def)


section \<open>Facts about Python numbers and \<open>normalize\<close>\<close>








lemma double_round_zero [simp]: "double_round 0 = Finite 0"
  by (simp add: double_round_def)
































section \<open>Facts about the movement model\<close>

lemma can_move_tick [simp]:
  "player_can_move (tick_power_up dt p) d m = player_can_move p d m"
  by (simp add: player_can_move_def can_move_def tick_power_up_def Let_def)

lemma tick_fields [simp]:
  "direction (tick_power_up dt p) = direction p"
  "next_direction (tick_power_up dt p) = next_direction p"
  "position (tick_power_up dt p) = position p"
  "speed (tick_power_up dt p) = speed p"
  by (simp_all add: tick_power_up_def Let_def)

lemma can_move_direction_upd [simp]:
  "player_can_move (p\<lparr>direction := d'\<rparr>) d m = player_can_move p d m"
  by (simp add: player_can_move_def can_move_def)

lemma can_move_NONE [simp]: "player_can_move p NONE m = Inr False"
  by (simp add: player_can_move_def can_move_def)

lemma move_position:
  "position (move ob) = step_pos (position ob) (direction ob) (speed ob)"
  by (cases "direction ob") (simp_all add: move_def step_pos_def vadd_def Vec_def)

lemma move_direction [simp]: "direction (move ob) = direction ob"
  by (simp add: move_def)

lemma step_pos_NONE [simp]: "step_pos q NONE s = q"
  by (simp add: step_pos_def Vec_def)

lemma update_player_position:
  assumes "update_player dt m p = Inr p'"
  shows "position p' = step_pos (position p) (direction p') (speed p)
         \<and> (direction p' \<noteq> NONE \<longrightarrow> player_can_move p (direction p') m = Inr True)"
  using assms
  by (auto simp: update_player_def resolve_turn_def advance_def move_position exn_bind_def
      split: if_splits sum.splits)

text \<open>
  Claim C5. One tick of \<open>Player.update\<close>, where \<open>player_can_move\<close> tests a direction
  from the position before the tick. (1) A requested direction that differs from the
  committed one and is unobstructed becomes the committed direction, and the player
  advances along it. (2) When the committed and the requested direction are both
  obstructed, the committed direction becomes NONE and the position stays.
  (3) When the committed direction is unobstructed and no turn is taken, it stays
  committed and the position advances by its unit vector times the speed.
  (4) In every tick the position advances by exactly the unit vector of the direction
  committed at the end of the tick times the speed (not at all for NONE), and that
  direction, unless NONE, was unobstructed.
\<close>

theorem player_update_movement:
  "(next_direction p \<noteq> direction p \<and> player_can_move p (next_direction p) m = Inr True
      \<longrightarrow> (\<exists>p'. update_player dt m p = Inr p' \<and> direction p' = next_direction p
             \<and> position p' = step_pos (position p) (next_direction p) (speed p)))
   \<and> (player_can_move p (direction p) m = Inr False
        \<and> player_can_move p (next_direction p) m = Inr False
      \<longrightarrow> (\<exists>p'. update_player dt m p = Inr p' \<and> direction p' = NONE
             \<and> position p' = position p))
   \<and> (player_can_move p (direction p) m = Inr True
        \<and> (next_direction p = direction p \<or> player_can_move p (next_direction p) m = Inr False)
      \<longrightarrow> (\<exists>p'. update_player dt m p = Inr p' \<and> direction p' = direction p
             \<and> position p' = step_pos (position p) (direction p) (speed p)))
   \<and> (\<forall>p'. update_player dt m p = Inr p'
      \<longrightarrow> position p' = step_pos (position p) (direction p') (speed p)
          \<and> (direction p' \<noteq> NONE \<longrightarrow> player_can_move p (direction p') m = Inr True))"
proof -
  have turn: "\<exists>p'. update_player dt m p = Inr p' \<and> direction p' = next_direction p
      \<and> position p' = step_pos (position p) (next_direction p) (speed p)"
    if "next_direction p \<noteq> direction p"
      and "player_can_move p (next_direction p) m = Inr True"
    using that by (auto simp: update_player_def resolve_turn_def advance_def move_position)
  have stop: "\<exists>p'. update_player dt m p = Inr p' \<and> direction p' = NONE
      \<and> position p' = position p"
    if "player_can_move p (direction p) m = Inr False"
      and "player_can_move p (next_direction p) m = Inr False"
    using that by (auto simp: update_player_def resolve_turn_def advance_def move_position)
  have go: "\<exists>p'. update_player dt m p = Inr p' \<and> direction p' = direction p
      \<and> position p' = step_pos (position p) (direction p) (speed p)"
    if "player_can_move p (direction p) m = Inr True"
      and "next_direction p = direction p \<or> player_can_move p (next_direction p) m = Inr False"
    using that by (auto simp: update_player_def resolve_turn_def advance_def move_position)
  have every: "position p' = step_pos (position p) (direction p') (speed p)
      \<and> (direction p' \<noteq> NONE \<longrightarrow> player_can_move p (direction p') m = Inr True)"
    if "update_player dt m p = Inr p'" for p'
    using that by (rule update_player_position)
  from turn stop go every show ?thesis
    by blast
qed

lemmas player_eval =
  player_can_move_def can_move_def is_valid_position_def half_size_def corners_def
  is_wall_def grid_coord_def open_map_def Vec_def height_def width_def py_getitem_def
  player_at_def step_pos_def base_sprite_size_def

lemma open_map_moves:
  "player_can_move (player_at (Vec 40 40) RIGHT UP) UP open_map = Inr True"
  "player_can_move (player_at (Vec 24 24) LEFT UP) LEFT open_map = Inr False"
  "player_can_move (player_at (Vec 24 24) LEFT UP) UP open_map = Inr False"
  "player_can_move (player_at (Vec 40 40) RIGHT RIGHT) RIGHT open_map = Inr True"
  by (simp_all add: player_eval)

theorem player_update_movement_witness:
  "(player_can_move (player_at (Vec 40 40) RIGHT UP) UP open_map = Inr True
      \<and> (\<exists>p'. update_player (1 / 60) open_map (player_at (Vec 40 40) RIGHT UP) = Inr p'
             \<and> direction p' = UP \<and> position p' = Vec 40 38))
   \<and> (player_can_move (player_at (Vec 24 24) LEFT UP) LEFT open_map = Inr False
      \<and> player_can_move (player_at (Vec 24 24) LEFT UP) UP open_map = Inr False
      \<and> (\<exists>p'. update_player (1 / 60) open_map (player_at (Vec 24 24) LEFT UP) = Inr p'
             \<and> direction p' = NONE \<and> position p' = Vec 24 24))
   \<and> (player_can_move (player_at (Vec 40 40) RIGHT RIGHT) RIGHT open_map = Inr True
      \<and> (\<exists>p'. update_player (1 / 60) open_map (player_at (Vec 40 40) RIGHT RIGHT) = Inr p'
             \<and> direction p' = RIGHT \<and> position p' = Vec 42 40))"
proof -
  have f: "direction (player_at q d nd) = d" "next_direction (player_at q d nd) = nd"
    "position (player_at q d nd) = q" "speed (player_at q d nd) = 2" for q d nd
    by (simp_all add: player_at_def)
  have s: "step_pos (Vec 40 40) UP 2 = Vec 40 38" "step_pos (Vec 40 40) RIGHT 2 = Vec 42 40"
    by (simp_all add: step_pos_def Vec_def)
  show ?thesis
    using player_update_movement [of "player_at (Vec 40 40) RIGHT UP" open_map "1 / 60"]
      player_update_movement [of "player_at (Vec 24 24) LEFT UP" open_map "1 / 60"]
      player_update_movement [of "player_at (Vec 40 40) RIGHT RIGHT" open_map "1 / 60"]
      open_map_moves
    by (simp add: f s)
qed


section \<open>Facts about ghost steering\<close>

lemma grid_coord_total: "c \<noteq> 0 \<Longrightarrow> grid_coord v c = Inr \<lfloor>v / c\<rfloor>"
  by (simp add: grid_coord_def)

lemma wf_map_row:
  assumes "wf_map m" "0 \<le> row" "row < height m" "0 \<le> col" "col < width m"
  shows "py_getitem (layout m) row = Inr (layout m ! nat row)
         \<and> py_getitem (layout m ! nat row) col = Inr (layout m ! nat row ! nat col)"
proof -
  have r: "row < int (length (layout m))" using assms(3) by (simp add: height_def)
  then have ne: "layout m \<noteq> []" using assms(2) by auto
  have "layout m ! nat row \<in> set (layout m)" using r assms(2) by simp
  then have "length (layout m ! nat row) = length (hd (layout m))"
    using assms(1) by (simp add: wf_map_def list_all_iff)
  then have "col < int (length (layout m ! nat row))"
    using assms(5) ne by (simp add: width_def)
  then show ?thesis
    using r assms(2,4) by (simp add: py_getitem_in_range)
qed

lemma is_wall_total:
  assumes "wf_map m"
  shows "\<exists>b. is_wall m p = Inr b"
proof -
  have cs: "cell_size m \<noteq> 0" using assms by (simp add: wf_map_def)
  show ?thesis
  proof (cases "\<lfloor>y p / cell_size m\<rfloor> < 0 \<or> height m \<le> \<lfloor>y p / cell_size m\<rfloor>
                \<or> \<lfloor>x p / cell_size m\<rfloor> < 0 \<or> width m \<le> \<lfloor>x p / cell_size m\<rfloor>")
    case True
    then show ?thesis using cs by (auto simp: is_wall_def grid_coord_total)
  next
    case False
    then show ?thesis
      using cs wf_map_row [OF assms, of "\<lfloor>y p / cell_size m\<rfloor>" "\<lfloor>x p / cell_size m\<rfloor>"]
      by (auto simp: is_wall_def grid_coord_total)
  qed
qed

lemma no_corner_in_wall_total:
  "wf_map m \<Longrightarrow> \<exists>b. no_corner_in_wall m cs = Inr b"
proof (induction cs)
  case Nil
  then show ?case by auto
next
  case (Cons c cs)
  from is_wall_total [OF Cons.prems, of c] obtain w where "is_wall m c = Inr w" by blast
  with Cons show ?case by auto
qed

lemma is_valid_position_total:
  "wf_map m \<Longrightarrow> \<exists>b. is_valid_position m p s k = Inr b"
  by (simp add: is_valid_position_def no_corner_in_wall_total)

lemma ghost_can_move_total: "wf_map m \<Longrightarrow> \<exists>b. ghost_can_move g d m = Inr b"
  using is_valid_position_total [of m]
  by (auto simp: ghost_can_move_def can_move_def)

lemma possible_directions_eq:
  assumes "wf_map m"
  shows "possible_directions g m t ds =
         Inr (map (\<lambda>d. (d, distance_after g t d))
                (filter (\<lambda>d. ghost_can_move g d m = Inr True) ds))"
proof (induction ds)
  case Nil
  then show ?case by simp
next
  case (Cons d ds)
  from ghost_can_move_total [OF assms, of g d] obtain b where "ghost_can_move g d m = Inr b"
    by blast
  with Cons show ?case by (simp add: distance_after_def)
qed

lemma py_max_key_in: "py_max_key k b zs \<in> set (b # zs)"
  by (induction zs arbitrary: b) auto

lemma py_max_key_ge_best: "k b \<le> k (py_max_key k b zs)"
proof (induction zs arbitrary: b)
  case Nil
  then show ?case by simp
next
  case (Cons z zs)
  have "k b \<le> k (if k b < k z then z else b)" by simp
  also have "\<dots> \<le> k (py_max_key k (if k b < k z then z else b) zs)" by (rule Cons.IH)
  finally show ?case by simp
qed

lemma py_max_key_ge: "z \<in> set (b # zs) \<Longrightarrow> k z \<le> k (py_max_key k b zs)"
proof (induction zs arbitrary: b)
  case Nil
  then show ?case by simp
next
  case (Cons a zs)
  let ?b' = "if k b < k a then a else b"
  have b': "k b \<le> k ?b'" "k a \<le> k ?b'" by simp_all
  from Cons.prems consider "z = b" | "z = a" | "z \<in> set zs" by auto
  then show ?case
  proof cases
    case 1
    then show ?thesis using b'(1) py_max_key_ge_best [of k ?b' zs] by simp
  next
    case 2
    then show ?thesis using b'(2) py_max_key_ge_best [of k ?b' zs] by simp
  next
    case 3
    then show ?thesis using Cons.IH [of ?b'] by simp
  qed
qed

lemma all_directions: "d \<noteq> NONE \<Longrightarrow> d \<in> set [UP, DOWN, LEFT, RIGHT]"
  by (cases d) simp_all

lemma ghost_can_move_NONE: "ghost_can_move g NONE m = Inr False"
  by (simp add: ghost_can_move_def can_move_def)

text \<open>
  Claim C1, amended. In a validated maze, a vulnerable ghost with at least one
  unobstructed direction gets from \<open>choose_direction\<close> an unobstructed direction whose
  distance to the target, measured from one step along it, is at least that of every
  unobstructed direction; it is a direction of least distance only when all
  unobstructed directions are equally far from the target.
\<close>

theorem vulnerable_flees:
  assumes "wf_map m" and "state g = ''vulnerable''" and "ghost_can_move g d0 m = Inr True"
  shows "\<exists>r. choose_direction g m t = Inr r
           \<and> ghost_can_move g r m = Inr True
           \<and> (\<forall>d. ghost_can_move g d m = Inr True
                 \<longrightarrow> distance_after g t d \<le> distance_after g t r)
           \<and> ((\<forall>d. ghost_can_move g d m = Inr True
                  \<longrightarrow> distance_after g t r \<le> distance_after g t d)
                \<longrightarrow> (\<forall>d. ghost_can_move g d m = Inr True
                      \<longrightarrow> distance_after g t d = distance_after g t r))"
proof -
  define ps where "ps = map (\<lambda>d. (d, distance_after g t d))
      (filter (\<lambda>d. ghost_can_move g d m = Inr True) [UP, DOWN, LEFT, RIGHT])"
  have pd: "possible_directions g m t [UP, DOWN, LEFT, RIGHT] = Inr ps"
    by (simp only: ps_def possible_directions_eq [OF assms(1)])
  have mem: "(d, distance_after g t d) \<in> set ps" if "ghost_can_move g d m = Inr True" for d
  proof -
    have "d \<noteq> NONE" using that ghost_can_move_NONE [of g m] by auto
    then have "d \<in> set [UP, DOWN, LEFT, RIGHT]" by (rule all_directions)
    with that show ?thesis unfolding ps_def by (auto simp: image_iff simp del: filter.simps)
  qed
  have shape: "q \<in> set ps \<Longrightarrow> ghost_can_move g (fst q) m = Inr True
      \<and> snd q = distance_after g t (fst q)" for q
    unfolding ps_def by (auto simp del: filter.simps)
  from mem [OF assms(3)] obtain q qs where ps: "ps = q # qs"
    by (cases ps) auto
  define w where "w = py_max_key snd q qs"
  have win: "w \<in> set ps" unfolding w_def ps by (rule py_max_key_in)
  have res: "choose_direction g m t = Inr (fst w)"
    unfolding choose_direction_def pd by (simp add: ps assms(2) w_def)
  have best: "distance_after g t d \<le> distance_after g t (fst w)"
    if "ghost_can_move g d m = Inr True" for d
  proof -
    have "snd (d, distance_after g t d) \<le> snd w"
      unfolding w_def using mem [OF that] ps by (intro py_max_key_ge) simp
    then show ?thesis using shape [OF win] by simp
  qed
  have "distance_after g t d = distance_after g t (fst w)"
    if "\<forall>d. ghost_can_move g d m = Inr True
          \<longrightarrow> distance_after g t (fst w) \<le> distance_after g t d"
      and "ghost_can_move g d m = Inr True" for d
    using that best [of d] by force
  with res shape [OF win] best show ?thesis by blast
qed

lemmas ghost_eval =
  ghost_can_move_def can_move_def is_valid_position_def half_size_def corners_def
  is_wall_def grid_coord_def open_map_def Vec_def height_def width_def py_getitem_def
  ghost_at_def step_pos_def base_sprite_size_def

lemma open_ghost_moves:
  "ghost_can_move (ghost_at (Vec 40 40) 1 ''vulnerable'') UP open_map = Inr True"
  "ghost_can_move (ghost_at (Vec 40 40) 1 ''vulnerable'') DOWN open_map = Inr True"
  "ghost_can_move (ghost_at (Vec 40 40) 1 ''vulnerable'') LEFT open_map = Inr True"
  "ghost_can_move (ghost_at (Vec 40 40) 1 ''vulnerable'') RIGHT open_map = Inr True"
  by (simp_all add: ghost_eval)

lemma open_ghost_distances:
  "distance_after (ghost_at (Vec 40 40) 1 ''vulnerable'') (Vec 40 40) UP = 1"
  "distance_after (ghost_at (Vec 40 40) 1 ''vulnerable'') (Vec 40 40) DOWN = 1"
  "distance_after (ghost_at (Vec 40 40) 1 ''vulnerable'') (Vec 40 40) LEFT = 1"
  "distance_after (ghost_at (Vec 40 40) 1 ''vulnerable'') (Vec 40 40) RIGHT = 1"
  by (simp_all add: distance_after_def distance_to_def magnitude_def vsub_def step_pos_def
      Vec_def ghost_at_def)

lemma open_map_wf: "wf_map open_map"
  by (simp add: wf_map_def open_map_def)

text \<open>
  Claim C1, as stated, fails in its second half: a vulnerable ghost whose target is its
  own position has all four directions unobstructed and equally far (distance 1) from
  the target, and the direction returned, UP, is then also a direction that minimizes
  the distance.
\<close>

theorem vulnerable_minimizes_counterexample:
  "state (ghost_at (Vec 40 40) 1 ''vulnerable'') = ''vulnerable''
   \<and> choose_direction (ghost_at (Vec 40 40) 1 ''vulnerable'') open_map (Vec 40 40) = Inr UP
   \<and> ghost_can_move (ghost_at (Vec 40 40) 1 ''vulnerable'') UP open_map = Inr True
   \<and> ghost_can_move (ghost_at (Vec 40 40) 1 ''vulnerable'') DOWN open_map = Inr True
   \<and> ghost_can_move (ghost_at (Vec 40 40) 1 ''vulnerable'') LEFT open_map = Inr True
   \<and> ghost_can_move (ghost_at (Vec 40 40) 1 ''vulnerable'') RIGHT open_map = Inr True
   \<and> distance_after (ghost_at (Vec 40 40) 1 ''vulnerable'') (Vec 40 40) UP
       \<le> distance_after (ghost_at (Vec 40 40) 1 ''vulnerable'') (Vec 40 40) DOWN
   \<and> distance_after (ghost_at (Vec 40 40) 1 ''vulnerable'') (Vec 40 40) UP
       \<le> distance_after (ghost_at (Vec 40 40) 1 ''vulnerable'') (Vec 40 40) LEFT
   \<and> distance_after (ghost_at (Vec 40 40) 1 ''vulnerable'') (Vec 40 40) UP
       \<le> distance_after (ghost_at (Vec 40 40) 1 ''vulnerable'') (Vec 40 40) RIGHT"
proof -
  have st: "state (ghost_at (Vec 40 40) 1 ''vulnerable'') = ''vulnerable''"
    by (simp add: ghost_at_def)
  have "choose_direction (ghost_at (Vec 40 40) 1 ''vulnerable'') open_map (Vec 40 40) = Inr UP"
    using open_ghost_distances
    by (simp add: choose_direction_def open_ghost_moves distance_after_def st)
  then show ?thesis
    by (simp add: open_ghost_moves open_ghost_distances st)
qed

theorem vulnerable_flees_witness:
  "wf_map open_map
   \<and> state (ghost_at (Vec 40 40) 1 ''vulnerable'') = ''vulnerable''
   \<and> ghost_can_move (ghost_at (Vec 40 40) 1 ''vulnerable'') UP open_map = Inr True
   \<and> (\<exists>r. choose_direction (ghost_at (Vec 40 40) 1 ''vulnerable'') open_map (Vec 40 60) = Inr r
          \<and> ghost_can_move (ghost_at (Vec 40 40) 1 ''vulnerable'') r open_map = Inr True
          \<and> distance_after (ghost_at (Vec 40 40) 1 ''vulnerable'') (Vec 40 60) DOWN
              \<le> distance_after (ghost_at (Vec 40 40) 1 ''vulnerable'') (Vec 40 60) r)"
proof -
  have st: "state (ghost_at (Vec 40 40) 1 ''vulnerable'') = ''vulnerable''"
    by (simp add: ghost_at_def)
  from vulnerable_flees [OF open_map_wf st open_ghost_moves(1), of "Vec 40 60"]
  show ?thesis
    using open_map_wf st open_ghost_moves by blast
qed


section \<open>Facts about difficulty scaling and vulnerability\<close>

lemma difficulty_multiplier_set:
  "difficulty_multiplier (set_difficulty 200 g) = 3"
  "difficulty_multiplier (set_difficulty 0 g) = 1"
  by (simp_all add: set_difficulty_def Let_def)

lemma vulnerable_duration_floor:
  "1000 \<le> get_difficulty_adjusted_vulnerable_duration g base"
  by (simp add: get_difficulty_adjusted_vulnerable_duration_def Let_def)

lemma mode_timing_bounds:
  "2000 \<le> fst (get_difficulty_adjusted_mode_timing g)"
  "snd (get_difficulty_adjusted_mode_timing g) \<le> 40000"
  by (simp_all add: get_difficulty_adjusted_mode_timing_def Let_def)

text \<open>
  Claim C8. For the same ghost, the vulnerability duration after \<open>set_difficulty 200\<close> is
  1000 ms, strictly less than the 8000 ms after \<open>set_difficulty 0\<close>, and at no difficulty
  below 1000 ms; the patrol duration is 2000 ms at difficulty 200, strictly less than the
  10000 ms at difficulty 0; at no difficulty is the patrol duration below 2000 ms or the
  chase duration above 40000 ms.
\<close>

theorem difficulty_scaling:
  "get_difficulty_adjusted_vulnerable_duration (set_difficulty 200 g) 8000 = 1000
   \<and> get_difficulty_adjusted_vulnerable_duration (set_difficulty 0 g) 8000 = 8000
   \<and> get_difficulty_adjusted_vulnerable_duration (set_difficulty 200 g) 8000
       < get_difficulty_adjusted_vulnerable_duration (set_difficulty 0 g) 8000
   \<and> 1000 \<le> get_difficulty_adjusted_vulnerable_duration (set_difficulty level g) base
   \<and> fst (get_difficulty_adjusted_mode_timing (set_difficulty 200 g)) = 2000
   \<and> fst (get_difficulty_adjusted_mode_timing (set_difficulty 0 g)) = 10000
   \<and> fst (get_difficulty_adjusted_mode_timing (set_difficulty 200 g))
       < fst (get_difficulty_adjusted_mode_timing (set_difficulty 0 g))
   \<and> 2000 \<le> fst (get_difficulty_adjusted_mode_timing (set_difficulty level g))
   \<and> snd (get_difficulty_adjusted_mode_timing (set_difficulty level g)) \<le> 40000"
proof -
  have v: "get_difficulty_adjusted_vulnerable_duration (set_difficulty 200 g) 8000 = 1000"
    "get_difficulty_adjusted_vulnerable_duration (set_difficulty 0 g) 8000 = 8000"
    by (simp_all add: get_difficulty_adjusted_vulnerable_duration_def
        difficulty_multiplier_set py_int_def Let_def)
  have p: "fst (get_difficulty_adjusted_mode_timing (set_difficulty 200 g)) = 2000"
    "fst (get_difficulty_adjusted_mode_timing (set_difficulty 0 g)) = 10000"
    by (simp_all add: get_difficulty_adjusted_mode_timing_def
        difficulty_multiplier_set py_int_def Let_def)
  show ?thesis
    using vulnerable_duration_floor [of "set_difficulty level g" base]
      mode_timing_bounds [of "set_difficulty level g"]
    by (simp add: v p)
qed

lemma set_vulnerable_speed:
  "speed (set_vulnerable g d) = max 1 (speed g - 1) \<and> 1 \<le> speed (set_vulnerable g d)
   \<and> state (set_vulnerable g d) = ''vulnerable''"
  by (simp add: set_vulnerable_def)

text \<open>
  Claim C7 at a ghost of speed 3: entering the vulnerable state lowers the speed to 2,
  and when the timer expires eight seconds later the state is normal again but the
  speed is the constant 1.5 that \<open>Ghost.update\<close> assigns, not the 3 it had before.
\<close>

theorem vulnerable_expiry_speed:
  "speed (ghost_at (Vec 40 40) 3 ''normal'') = 3
   \<and> state (set_vulnerable (ghost_at (Vec 40 40) 3 ''normal'') 8000) = ''vulnerable''
   \<and> speed (set_vulnerable (ghost_at (Vec 40 40) 3 ''normal'') 8000) = 2
   \<and> vulnerable_timer (set_vulnerable (ghost_at (Vec 40 40) 3 ''normal'') 8000) = 8000
   \<and> state (fst (update_timers 8 (set_vulnerable (ghost_at (Vec 40 40) 3 ''normal'') 8000)))
       = ''normal''
   \<and> speed (fst (update_timers 8 (set_vulnerable (ghost_at (Vec 40 40) 3 ''normal'') 8000)))
       = 3 / 2"
  by (simp add: ghost_at_def set_vulnerable_def update_timers_def
      get_difficulty_adjusted_vulnerable_duration_def py_int_def Let_def)


section \<open>Facts about the ghost-collision loop\<close>

lemma lose_life_nonneg: "0 \<le> lives (lose_life q)"
  by (simp add: lose_life_def Let_def)

lemma lose_life_one: "lives q = 1 \<Longrightarrow> lives (lose_life q) = 0"
  by (simp add: lose_life_def Let_def)

lemma lose_life_zero: "lives q = 0 \<Longrightarrow> lives (lose_life q) = 0"
  by (simp add: lose_life_def Let_def)

lemma lose_life_position [simp]: "position (lose_life q) = position q"
  by (simp add: lose_life_def Let_def)

lemma eat_pellet_fields [simp]:
  "position (eat_pellet q v) = position q" "lives (eat_pellet q v) = lives q"
  by (simp_all add: eat_pellet_def)

lemma defeated_step: "defeated p0 w0 gm \<Longrightarrow> defeated p0 w0 (collide_with_ghost j gm)"
  by (auto simp: defeated_def collide_with_ghost_def Let_def set_game_over_def lose_life_zero)

lemma defeated_fold: "defeated p0 w0 gm \<Longrightarrow> defeated p0 w0 (fold collide_with_ghost js gm)"
  by (induction js arbitrary: gm) (simp_all add: defeated_step)

lemma last_life_hit:
  assumes "last_life p0 w0 gh i gm" and "state gh = ''normal''"
    and "distance_to p0 (position gh) < collision_radius"
  shows "defeated p0 w0 (collide_with_ghost i gm)"
  using assms
  by (simp add: defeated_def last_life_def collide_with_ghost_def Let_def set_game_over_def
      lose_life_one)

lemma last_life_other:
  assumes "last_life p0 w0 gh i gm" and "j \<noteq> i"
  shows "last_life p0 w0 gh i (collide_with_ghost j gm)
         \<or> defeated p0 w0 (collide_with_ghost j gm)"
  using assms
  by (auto simp: defeated_def last_life_def collide_with_ghost_def Let_def set_game_over_def
      lose_life_one)

lemma last_life_fold:
  assumes "last_life p0 w0 gh i gm" and "state gh = ''normal''"
    and "distance_to p0 (position gh) < collision_radius" and "i \<in> set js"
  shows "defeated p0 w0 (fold collide_with_ghost js gm)"
  using assms(1,4)
proof (induction js arbitrary: gm)
  case Nil
  then show ?case by simp
next
  case (Cons j js)
  show ?case
  proof (cases "j = i")
    case True
    then show ?thesis
      using last_life_hit [OF Cons.prems(1) assms(2,3)] by (simp add: defeated_fold)
  next
    case False
    with Cons.prems(2) have "i \<in> set js" by simp
    from last_life_other [OF Cons.prems(1) False] show ?thesis
    proof
      assume "last_life p0 w0 gh i (collide_with_ghost j gm)"
      then show ?thesis using Cons.IH \<open>i \<in> set js\<close> by simp
    next
      assume "defeated p0 w0 (collide_with_ghost j gm)"
      then show ?thesis by (simp add: defeated_fold)
    qed
  qed
qed

text \<open>
  Claim C9. In the ghost-collision loop of \<open>Game.update\<close>: when the player has exactly
  one life and some ghost in the normal state is closer than the collision radius, the
  loop ends with zero lives and the state GAME_OVER, and the reset branch was not taken:
  the player stands where it stood and no wait happened. \<open>lose_life\<close> never leaves a
  negative number of lives.
\<close>

theorem last_life_collision:
  assumes "lives (player gm) = 1" and "i < length (ghosts gm)"
    and "state (ghosts gm ! i) = ''normal''"
    and "distance_to (position (player gm)) (position (ghosts gm ! i)) < collision_radius"
  shows "lives (player (resolve_ghost_collisions gm)) = 0
         \<and> game_state (resolve_ghost_collisions gm) = GAME_OVER
         \<and> position (player (resolve_ghost_collisions gm)) = position (player gm)
         \<and> waited_ms (resolve_ghost_collisions gm) = waited_ms gm
         \<and> 0 \<le> lives (lose_life q)"
proof -
  have "last_life (position (player gm)) (waited_ms gm) (ghosts gm ! i) i gm"
    using assms(1) by (simp add: last_life_def)
  moreover have "i \<in> set [0..<length (ghosts gm)]" using assms(2) by simp
  ultimately have "defeated (position (player gm)) (waited_ms gm) (resolve_ghost_collisions gm)"
    unfolding resolve_ghost_collisions_def
    using assms(3,4) by (intro last_life_fold) auto
  then show ?thesis by (simp add: defeated_def lose_life_nonneg)
qed

lemma sqrt_less_iff_square: "0 \<le> c \<Longrightarrow> sqrt a < c \<longleftrightarrow> a < c * c"
proof -
  assume c: "0 \<le> c"
  have "sqrt a < sqrt (c * c) \<longleftrightarrow> a < c * c" by (rule real_sqrt_less_iff)
  moreover have "sqrt (c * c) = c" using c by simp
  ultimately show ?thesis by simp
qed

lemma last_life_game_facts:
  "lives (player last_life_game) = 1"
  "length (ghosts last_life_game) = 2"
  "state (ghosts last_life_game ! 1) = ''normal''"
  "position (player last_life_game) = Vec 40 40"
  "position (ghosts last_life_game ! 1) = Vec 40 44"
  "waited_ms last_life_game = 0"
  by (simp_all add: last_life_game_def player_at_def ghost_at_def)

lemma last_life_game_close:
  "distance_to (Vec 40 40) (Vec 40 44) < collision_radius"
  by (simp add: distance_to_def magnitude_def vsub_def Vec_def collision_radius_def
      base_sprite_size_def sqrt_less_iff_square)

theorem last_life_collision_witness:
  "lives (player last_life_game) = 1
   \<and> 1 < length (ghosts last_life_game)
   \<and> state (ghosts last_life_game ! 1) = ''normal''
   \<and> distance_to (position (player last_life_game)) (position (ghosts last_life_game ! 1))
       < collision_radius
   \<and> lives (player (resolve_ghost_collisions last_life_game)) = 0
   \<and> game_state (resolve_ghost_collisions last_life_game) = GAME_OVER
   \<and> position (player (resolve_ghost_collisions last_life_game)) = Vec 40 40
   \<and> waited_ms (resolve_ghost_collisions last_life_game) = 0"
proof -
  have len: "1 < length (ghosts last_life_game)"
    by (simp add: last_life_game_facts)
  have close: "distance_to (position (player last_life_game))
      (position (ghosts last_life_game ! 1)) < collision_radius"
    by (simp only: last_life_game_facts last_life_game_close)
  from last_life_collision [OF last_life_game_facts(1) len last_life_game_facts(3) close]
  show ?thesis
    using len close last_life_game_facts(1,3,4,6) by simp
qed


section \<open>Facts about the priority queue\<close>

lemma siftdown_loop_length [simp]:
  "length (siftdown_loop heap newitem startpos pos) = length heap"
proof (induction heap newitem startpos pos rule: siftdown_loop.induct)
  case (1 heap newitem startpos pos)
  then show ?case
    by (subst siftdown_loop.simps) (simp add: Let_def)
qed

lemma siftdown_loop_set:
  "pos < length heap \<Longrightarrow>
   set (siftdown_loop heap newitem startpos pos) \<subseteq> insert newitem (set heap)"
proof (induction heap newitem startpos pos rule: siftdown_loop.induct)
  case (1 heap newitem startpos pos)
  show ?case
  proof (cases "startpos < pos \<and> node_lt newitem (heap ! ((pos - 1) div 2))")
    case True
    then have lt: "(pos - 1) div 2 < pos" by auto
    with "1.prems" have in_range: "(pos - 1) div 2 < length heap" by simp
    have "set (siftdown_loop (heap[pos := heap ! ((pos - 1) div 2)]) newitem startpos
             ((pos - 1) div 2))
          \<subseteq> insert newitem (set (heap[pos := heap ! ((pos - 1) div 2)]))"
      using True in_range by (intro "1.IH") simp_all
    also have "\<dots> \<subseteq> insert newitem (insert (heap ! ((pos - 1) div 2)) (set heap))"
      using set_update_subset_insert [of heap pos] by auto
    also have "\<dots> = insert newitem (set heap)"
      using in_range by auto
    finally show ?thesis
      using True by (subst siftdown_loop.simps) (simp add: Let_def)
  next
    case False
    then show ?thesis
      using set_update_subset_insert [of heap pos newitem]
      by (subst siftdown_loop.simps) (auto simp: Let_def)
  qed
qed

lemma siftdown_length [simp]: "length (siftdown heap startpos pos) = length heap"
  by (simp add: siftdown_def)

lemma siftdown_set: "pos < length heap \<Longrightarrow> set (siftdown heap startpos pos) \<subseteq> set heap"
  using siftdown_loop_set [of pos heap "heap ! pos" startpos] by (auto simp: siftdown_def)

lemma siftup_loop_length:
  "siftup_loop heap pos endpos = (heap1, pos1) \<Longrightarrow> length heap1 = length heap"
proof (induction heap pos endpos arbitrary: heap1 pos1 rule: siftup_loop.induct)
  case (1 heap pos endpos)
  show ?case
  proof (cases "2 * pos + 1 < endpos")
    case True
    define c where "c = smaller_child heap (2 * pos + 1) endpos"
    have "siftup_loop (heap[pos := heap ! c]) c endpos = (heap1, pos1)"
      using "1.prems" True by (subst (asm) siftup_loop.simps) (simp add: Let_def c_def)
    then have "length heap1 = length (heap[pos := heap ! c])"
      using True by (intro "1.IH" [of "2 * pos + 1" c]) (simp_all add: c_def)
    then show ?thesis by simp
  next
    case False
    then show ?thesis
      using "1.prems" by (subst (asm) siftup_loop.simps) (simp add: Let_def)
  qed
qed

lemma siftup_loop_set:
  "siftup_loop heap pos endpos = (heap1, pos1) \<Longrightarrow> endpos \<le> length heap \<Longrightarrow> pos < endpos
   \<Longrightarrow> set heap1 \<subseteq> set heap \<and> pos1 < endpos"
proof (induction heap pos endpos arbitrary: heap1 pos1 rule: siftup_loop.induct)
  case (1 heap pos endpos)
  show ?case
  proof (cases "2 * pos + 1 < endpos")
    case True
    define c where "c = smaller_child heap (2 * pos + 1) endpos"
    have c: "c < endpos" using True by (simp add: c_def smaller_child_def Let_def)
    have "siftup_loop (heap[pos := heap ! c]) c endpos = (heap1, pos1)"
      using "1.prems"(1) True by (subst (asm) siftup_loop.simps) (simp add: Let_def c_def)
    then have "set heap1 \<subseteq> set (heap[pos := heap ! c]) \<and> pos1 < endpos"
      using True c "1.prems"(2)
      by (intro "1.IH" [of "2 * pos + 1" c]) (simp_all add: c_def)
    moreover have "set (heap[pos := heap ! c]) \<subseteq> set heap"
      using set_update_subset_insert [of heap pos "heap ! c"] c "1.prems"(2) by auto
    ultimately show ?thesis by auto
  next
    case False
    then show ?thesis
      using "1.prems" by (subst (asm) siftup_loop.simps) (simp add: Let_def)
  qed
qed

lemma siftup_length [simp]: "length (siftup heap pos) = length heap"
  by (auto simp: siftup_def Let_def split: prod.splits dest: siftup_loop_length)

lemma siftup_set:
  assumes "pos < length heap"
  shows "set (siftup heap pos) \<subseteq> set heap"
proof -
  obtain heap1 pos1 where l: "siftup_loop heap pos (length heap) = (heap1, pos1)"
    by (cases "siftup_loop heap pos (length heap)")
  from siftup_loop_set [OF l] assms have s: "set heap1 \<subseteq> set heap" "pos1 < length heap"
    by simp_all
  from siftup_loop_length [OF l] have len: "length heap1 = length heap" .
  have "set (siftdown (heap1[pos1 := heap ! pos]) pos pos1) \<subseteq> set (heap1[pos1 := heap ! pos])"
    using s(2) len by (intro siftdown_set) simp
  also have "\<dots> \<subseteq> insert (heap ! pos) (set heap1)"
    by (rule set_update_subset_insert)
  also have "\<dots> \<subseteq> set heap"
    using s(1) assms by auto
  finally show ?thesis
    by (simp add: siftup_def l)
qed

lemma heappush_length [simp]: "length (heappush heap item) = Suc (length heap)"
  by (simp add: heappush_def)

lemma heappush_set: "set (heappush heap item) \<subseteq> insert item (set heap)"
  using siftdown_set [of "length heap" "heap @ [item]" 0] by (auto simp: heappush_def)

lemma heappop_nonempty:
  assumes "heap \<noteq> []"
  shows "\<exists>cur heap1. heappop heap = Inr (cur, heap1) \<and> cur \<in> set heap
           \<and> set heap1 \<subseteq> set heap \<and> Suc (length heap1) = length heap"
proof -
  from assms obtain xs a where heap: "heap = xs @ [a]"
    by (cases heap rule: rev_cases) auto
  show ?thesis
  proof (cases "xs = []")
    case True
    then show ?thesis by (simp add: heappop_def heap)
  next
    case False
    have "set (siftup (xs[0 := a]) 0) \<subseteq> set (xs[0 := a])"
      using False by (intro siftup_set) simp
    also have "\<dots> \<subseteq> insert a (set xs)"
      by (rule set_update_subset_insert)
    finally have s: "set (siftup (xs[0 := a]) 0) \<subseteq> insert a (set xs)" .
    have "xs ! 0 \<in> set xs" using False by simp
    then show ?thesis
      using False s by (simp add: heappop_def heap)
  qed
qed

section \<open>Facts about the paths found\<close>

text \<open>An invariant of all queued nodes survives the scan of the neighbours.\<close>

lemma scan_neighbors_nodes:
  assumes "scan_neighbors m goal ht cur cl nps (ol, best) = Inr (ol', best')"
    and "\<forall>nd \<in> set ol. Q nd"
    and "\<forall>np \<in> set nps.
           Q (make_node np (g_cost cur + 16) (heuristic np goal ht) (Some cur))"
  shows "\<forall>nd \<in> set ol'. Q nd"
  using assms
proof (induction nps arbitrary: ol best)
  case Nil
  then show ?case by simp
next
  case (Cons np nps)
  have rest: "\<forall>np \<in> set nps.
      Q (make_node np (g_cost cur + 16) (heuristic np goal ht) (Some cur))"
    using Cons.prems(3) by simp
  show ?case
  proof (cases "pos_key np \<in> cl")
    case True
    with Cons.prems(1) have "scan_neighbors m goal ht cur cl nps (ol, best) = Inr (ol', best')"
      by simp
    from Cons.IH [OF this Cons.prems(2) rest] show ?thesis .
  next
    case False
    with Cons.prems(1) obtain valid where v: "is_valid_position m np 16 ''ghost'' = Inr valid"
      by (cases "is_valid_position m np 16 ''ghost''") simp_all
    let ?g = "g_cost cur + 16" and ?h = "heuristic np goal ht"
    let ?push = "valid \<and> (case best (pos_key np) of None \<Rightarrow> True | Some b \<Rightarrow> ?g < b)"
    show ?thesis
    proof (cases ?push)
      case True
      with Cons.prems(1) False v
      have r: "scan_neighbors m goal ht cur cl nps
                 (heappush ol (make_node np ?g ?h (Some cur)), best(pos_key np \<mapsto> ?g))
               = Inr (ol', best')"
        by (simp add: Let_def)
      have "\<forall>nd \<in> set (heappush ol (make_node np ?g ?h (Some cur))). Q nd"
        using heappush_set [of ol "make_node np ?g ?h (Some cur)"] Cons.prems(2,3) by auto
      from Cons.IH [OF r this rest] show ?thesis .
    next
      case no: False
      with Cons.prems(1) False v
      have "scan_neighbors m goal ht cur cl nps (ol, best) = Inr (ol', best')"
        by (auto simp: Let_def split: if_splits)
      from Cons.IH [OF this Cons.prems(2) rest] show ?thesis .
    qed
  qed
qed

lemma path_back_hd: "path_back nd = node_position nd # tl (path_back nd)"
  by (cases nd) simp

lemma path_back_make_node:
  "path_back (make_node p g h (Some cur)) = p # path_back cur"
  "path_back (make_node p g h None) = [p]"
  by (simp_all add: make_node_def)

lemma rooted_start: "rooted start (make_node start g h None)"
  by (simp add: rooted_def path_back_make_node)

lemma neighbor_step:
  "np \<in> set (get_neighbors p 16) \<Longrightarrow> grid_step 16 p np"
  by (auto simp: get_neighbors_def grid_step_def Vec_def)

lemma rooted_child:
  assumes "rooted start cur" and "np \<in> set (get_neighbors (node_position cur) 16)"
  shows "rooted start (make_node np g h (Some cur))"
proof -
  obtain rest where pb: "path_back cur = node_position cur # rest"
    using path_back_hd [of cur] by blast
  show ?thesis
    using assms neighbor_step [OF assms(2)]
    by (simp add: rooted_def path_back_make_node pb)
qed

lemma rooted_path:
  assumes "rooted start nd"
  shows "hd (reconstruct_path nd) = start
         \<and> successively (grid_step 16) (reconstruct_path nd)
         \<and> last (reconstruct_path nd) = node_position nd \<and> reconstruct_path nd \<noteq> []"
proof -
  obtain rest where pb: "path_back nd = node_position nd # rest"
    using path_back_hd [of nd] by blast
  have "hd (rev (path_back nd)) = last (path_back nd)"
    by (simp add: pb hd_rev)
  moreover have "last (rev (path_back nd)) = node_position nd"
    by (simp add: pb)
  moreover have "successively (grid_step 16) (rev (path_back nd))"
    using assms by (simp add: rooted_def)
  moreover have "last (path_back nd) = start"
    using assms by (simp add: rooted_def)
  moreover have "rev (path_back nd) \<noteq> []"
    by (simp add: pb)
  ultimately show ?thesis
    by (simp only: reconstruct_path_def not_False_eq_True simp_thms)
qed

lemma astar_loop_path:
  assumes "astar_loop n m goal ht ol cl best = Some (Inr path)"
    and "\<forall>nd \<in> set ol. rooted start nd" and "path \<noteq> []"
  shows "hd path = start \<and> successively (grid_step 16) path
         \<and> distance_to (last path) goal < 8"
  using assms
proof (induction n arbitrary: ol cl best)
  case 0
  then show ?case by simp
next
  case (Suc n)
  from Suc.prems(1,3) have ne: "ol \<noteq> []" by auto
  from heappop_nonempty [OF ne] obtain cur ol1 where
    pop: "heappop ol = Inr (cur, ol1)" and cur: "cur \<in> set ol" and sub: "set ol1 \<subseteq> set ol"
    by blast
  have rc: "rooted start cur" using cur Suc.prems(2) by simp
  show ?case
  proof (cases "distance_to (node_position cur) goal < 8")
    case True
    with Suc.prems(1) ne pop have "path = reconstruct_path cur" by simp
    with rooted_path [OF rc] True show ?thesis by simp
  next
    case False
    let ?cl = "insert (pos_key (node_position cur)) cl"
    from Suc.prems(1) ne pop False obtain ol2 best2 where
      scan: "scan_neighbors m goal ht cur ?cl (get_neighbors (node_position cur) 16) (ol1, best)
             = Inr (ol2, best2)"
      and loop: "astar_loop n m goal ht ol2 ?cl best2 = Some (Inr path)"
      by (auto simp: Let_def split: sum.splits)
    have "\<forall>nd \<in> set ol1. rooted start nd" using sub Suc.prems(2) by auto
    moreover have "\<forall>np \<in> set (get_neighbors (node_position cur) 16).
        rooted start (make_node np (g_cost cur + 16) (heuristic np goal ht) (Some cur))"
      using rooted_child [OF rc] by blast
    ultimately have "\<forall>nd \<in> set ol2. rooted start nd"
      by (rule scan_neighbors_nodes [OF scan])
    from Suc.IH [OF loop this Suc.prems(3)] show ?thesis .
  qed
qed

text \<open>
  Claim C4, amended. A non-empty path returned by \<open>find_path\<close> starts at the start
  position, moves between consecutive waypoints by exactly 16 pixels along one axis and
  not at all along the other (16 is the search's fixed step, whatever the maze's cell
  size), and ends within the goal tolerance of 8 pixels.
\<close>

theorem find_path_waypoints:
  assumes "find_path fuel start goal m ht = Some (Inr path)" and "path \<noteq> []"
  shows "hd path = start
         \<and> successively (grid_step 16) path
         \<and> distance_to (last path) goal < 8"
proof -
  have "\<forall>nd \<in> set (heappush [] (make_node start 0 (heuristic start goal ht) None)).
          rooted start nd"
    using heappush_set [of "[]" "make_node start 0 (heuristic start goal ht) None"]
      rooted_start [of start 0 "heuristic start goal ht"] by auto
  from astar_loop_path [OF assms(1) [unfolded find_path_def] this assms(2)]
  show ?thesis .
qed

lemmas astar_eval =
  find_path_def heappush_def heappop_def siftdown_def siftup_def make_node_def
  siftdown_loop.simps siftup_loop.simps smaller_child_def
  heuristic_def get_neighbors_def pos_key_def reconstruct_path_def
  is_valid_position_def half_size_def corners_def is_wall_def grid_coord_def
  Vec_def height_def width_def py_getitem_def distance_to_def magnitude_def vsub_def
  sqrt_less_iff_square node_lt_def Let_def

lemma wide_map_path:
  "find_path 2 (Vec 48 48) (Vec 64 48) wide_map ''manhattan''
     = Some (Inr [Vec 48 48, Vec 64 48])"
  by (simp add: astar_eval wide_map_def eval_nat_numeral)

text \<open>
  Claim C4, as stated, fails on a maze whose cell size is not 16: in a maze of 32-pixel
  cells the path from (48, 48) to (64, 48) has two waypoints 16 pixels apart, half a
  cell.
\<close>

theorem find_path_cell_size_counterexample:
  "find_path 2 (Vec 48 48) (Vec 64 48) wide_map ''manhattan''
     = Some (Inr [Vec 48 48, Vec 64 48])
   \<and> cell_size wide_map = 32
   \<and> \<not> grid_step (cell_size wide_map) (Vec 48 48) (Vec 64 48)
   \<and> grid_step 16 (Vec 48 48) (Vec 64 48)"
  using wide_map_path by (simp add: grid_step_def wide_map_def Vec_def)

theorem find_path_waypoints_witness:
  "find_path 2 (Vec 48 48) (Vec 64 48) wide_map ''manhattan''
     = Some (Inr [Vec 48 48, Vec 64 48])
   \<and> [Vec 48 48, Vec 64 48] \<noteq> []
   \<and> hd [Vec 48 48, Vec 64 48] = Vec 48 48
   \<and> successively (grid_step 16) [Vec 48 48, Vec 64 48]
   \<and> distance_to (last [Vec 48 48, Vec 64 48]) (Vec 64 48) < 8"
  using find_path_waypoints [OF wide_map_path] wide_map_path by simp


section \<open>Termination of the search\<close>

lemma floor_range_bound:
  fixes a c :: real
  assumes "c \<noteq> 0" and "0 \<le> \<lfloor>a / c\<rfloor>" and "\<lfloor>a / c\<rfloor> < w"
  shows "\<bar>a\<bar> \<le> real_of_int w * \<bar>c\<bar>"
proof -
  have lo: "0 \<le> a / c" using assms(2) by simp
  have "a / c < real_of_int w" using assms(3) by (simp add: floor_less_iff)
  then have "\<bar>a / c\<bar> \<le> real_of_int w" using lo by simp
  then have "\<bar>a / c\<bar> * \<bar>c\<bar> \<le> real_of_int w * \<bar>c\<bar>"
    by (intro mult_right_mono) simp_all
  moreover have "\<bar>a / c\<bar> * \<bar>c\<bar> = \<bar>a\<bar>"
    using assms(1) by (simp add: abs_divide)
  ultimately show ?thesis by simp
qed

lemma is_wall_FalseD:
  assumes "is_wall m p = Inr False"
  shows "\<bar>x p\<bar> \<le> real_of_int (width m) * \<bar>cell_size m\<bar>
         \<and> \<bar>y p\<bar> \<le> real_of_int (height m) * \<bar>cell_size m\<bar>"
proof -
  from assms have cs: "cell_size m \<noteq> 0"
    by (auto simp: is_wall_def grid_coord_def split: if_splits)
  from assms cs have r: "0 \<le> \<lfloor>y p / cell_size m\<rfloor>" "\<lfloor>y p / cell_size m\<rfloor> < height m"
    "0 \<le> \<lfloor>x p / cell_size m\<rfloor>" "\<lfloor>x p / cell_size m\<rfloor> < width m"
    by (auto simp: is_wall_def grid_coord_def split: if_splits)
  show ?thesis
    using floor_range_bound [OF cs r(3,4)] floor_range_bound [OF cs r(1,2)] by simp
qed

lemma valid_ghost_bounded:
  assumes "is_valid_position m p 16 ''ghost'' = Inr True"
  shows "\<bar>x p\<bar> \<le> real_of_int (width m) * \<bar>cell_size m\<bar> + 5
         \<and> \<bar>y p\<bar> \<le> real_of_int (height m) * \<bar>cell_size m\<bar> + 5"
proof -
  have "\<forall>c \<in> set (corners p (half_size 16 ''ghost'')). is_wall m c = Inr False"
    using assms by (simp only: is_valid_position_def no_corner_in_wall_True)
  then have "is_wall m (Vec (x p - 5) (y p - 5)) = Inr False"
    by (simp add: corners_def half_size_def)
  from is_wall_FalseD [OF this]
  have "\<bar>x p - 5\<bar> \<le> real_of_int (width m) * \<bar>cell_size m\<bar>"
    "\<bar>y p - 5\<bar> \<le> real_of_int (height m) * \<bar>cell_size m\<bar>"
    by (simp_all add: Vec_def)
  then show ?thesis by linarith
qed

lemma grid_index_bounded:
  fixes s b :: real
  assumes "\<bar>s + 16 * of_int i\<bar> \<le> b"
  shows "i \<in> {- \<lceil>\<bar>s\<bar> + b\<rceil> .. \<lceil>\<bar>s\<bar> + b\<rceil>}"
proof -
  have "\<bar>16 * real_of_int i\<bar> \<le> \<bar>s\<bar> + b" using assms by linarith
  then have "\<bar>real_of_int i\<bar> \<le> \<bar>s\<bar> + b" by linarith
  also have "\<dots> \<le> real_of_int \<lceil>\<bar>s\<bar> + b\<rceil>" by linarith
  finally have "\<bar>i\<bar> \<le> \<lceil>\<bar>s\<bar> + b\<rceil>" by linarith
  then show ?thesis by auto
qed

lemma finite_reach_keys: "finite (reach_keys m start)"
proof -
  define bx where "bx = real_of_int (width m) * \<bar>cell_size m\<bar> + 5"
  define by' where "by' = real_of_int (height m) * \<bar>cell_size m\<bar> + 5"
  define I where "I = {- \<lceil>\<bar>x start\<bar> + bx\<rceil> .. \<lceil>\<bar>x start\<bar> + bx\<rceil>}"
  define J where "J = {- \<lceil>\<bar>y start\<bar> + by'\<rceil> .. \<lceil>\<bar>y start\<bar> + by'\<rceil>}"
  have "reach_keys m start
        \<subseteq> (\<lambda>(i, j). (x start + 16 * of_int i, y start + 16 * of_int j)) ` (I \<times> J)"
  proof
    fix k assume k: "k \<in> reach_keys m start"
    then obtain i j :: int where ij: "fst k = x start + 16 * of_int i"
        "snd k = y start + 16 * of_int j"
      by (auto simp: reach_keys_def on_grid_def Vec_def)
    from k have "is_valid_position m (Vec (fst k) (snd k)) 16 ''ghost'' = Inr True"
      by (simp add: reach_keys_def)
    from valid_ghost_bounded [OF this] have "\<bar>fst k\<bar> \<le> bx" "\<bar>snd k\<bar> \<le> by'"
      by (simp_all add: Vec_def bx_def by'_def)
    then have "i \<in> I" "j \<in> J"
      using grid_index_bounded [of "x start" i bx] grid_index_bounded [of "y start" j by'] ij
      by (simp_all add: I_def J_def)
    then have "(fst k, snd k) \<in> (\<lambda>(i, j). (x start + 16 * of_int i, y start + 16 * of_int j))
        ` (I \<times> J)"
      using ij by (intro image_eqI [where x = "(i, j)"]) simp_all
    then show "k \<in> (\<lambda>(i, j). (x start + 16 * of_int i, y start + 16 * of_int j)) ` (I \<times> J)"
      by simp
  qed
  moreover have "finite ((\<lambda>(i, j). (x start + 16 * of_int i, y start + 16 * of_int j)) ` (I \<times> J))"
    by (simp add: I_def J_def)
  ultimately show ?thesis by (rule finite_subset)
qed

lemma Vec_eta [simp]: "Vec (x p) (y p) = p"
  by (simp add: Vec_def)

lemma push_measure:
  assumes fin: "finite F" and k: "k \<in> F"
    and better: "case best k of None \<Rightarrow> True | Some b \<Rightarrow> 16 * real (Suc n) < b"
  shows "(search_measure F (best(k \<mapsto> 16 * real (Suc n))), search_measure F best) \<in> pair_less"
proof (cases "best k")
  case None
  then have "k \<in> F - dom best" using k by auto
  moreover have "F - dom (best(k \<mapsto> 16 * real (Suc n))) = (F - dom best) - {k}" by auto
  ultimately have "card (F - dom (best(k \<mapsto> 16 * real (Suc n)))) < card (F - dom best)"
    using fin by (simp only: card_Diff1_less finite_Diff)
  then show ?thesis
    by (simp add: search_measure_def pair_lessI1)
next
  case (Some b)
  with better have b: "16 * real (Suc n) < b" by simp
  have d: "dom (best(k \<mapsto> 16 * real (Suc n))) = dom best" using Some by auto
  have new: "cost_rank (best(k \<mapsto> 16 * real (Suc n))) k = Suc n"
  proof -
    have "\<lceil>16 * real (Suc n) / 16\<rceil> = int (Suc n)"
      by (simp add: ceiling_eq_iff del: of_nat_Suc)
    then show ?thesis by (simp add: cost_rank_def del: of_nat_Suc)
  qed
  have old: "Suc n < cost_rank best k"
  proof -
    have "real (Suc n) < b / 16" using b by simp
    then have "int (Suc n) < \<lceil>b / 16\<rceil>" by (simp add: less_ceiling_iff del: of_nat_Suc)
    then show ?thesis using Some by (simp add: cost_rank_def del: of_nat_Suc)
  qed
  have "sum (cost_rank (best(k \<mapsto> 16 * real (Suc n)))) F < sum (cost_rank best) F"
  proof (rule sum_strict_mono_ex1 [OF fin])
    show "\<forall>q\<in>F. cost_rank (best(k \<mapsto> 16 * real (Suc n))) q \<le> cost_rank best q"
      using new old by (auto simp: cost_rank_def)
    show "\<exists>q\<in>F. cost_rank (best(k \<mapsto> 16 * real (Suc n))) q < cost_rank best q"
    proof (rule bexI [of _ k])
      show "cost_rank (best(k \<mapsto> 16 * real (Suc n))) k < cost_rank best k"
        using old by (simp only: new)
    qed (rule k)
  qed
  then show ?thesis
    unfolding search_measure_def d by (intro pair_lessI2) simp_all
qed

lemma neighbor_on_grid:
  assumes "on_grid start p" and "np \<in> set (get_neighbors p 16)"
  shows "on_grid start np"
proof -
  from assms(1) obtain i j :: int where
    ij: "x p = x start + 16 * of_int i" "y p = y start + 16 * of_int j"
    by (auto simp: on_grid_def)
  from assms(2) consider "np = Vec (x p) (y p - 16)" | "np = Vec (x p) (y p + 16)"
    | "np = Vec (x p - 16) (y p)" | "np = Vec (x p + 16) (y p)"
    by (auto simp: get_neighbors_def)
  then show ?thesis
  proof cases
    case 1
    then show ?thesis unfolding on_grid_def
      by (intro exI [of _ "i"] exI [of _ "j - 1"]) (simp add: Vec_def ij)
  next
    case 2
    then show ?thesis unfolding on_grid_def
      by (intro exI [of _ "i"] exI [of _ "j + 1"]) (simp add: Vec_def ij)
  next
    case 3
    then show ?thesis unfolding on_grid_def
      by (intro exI [of _ "i - 1"] exI [of _ "j"]) (simp add: Vec_def ij)
  next
    case 4
    then show ?thesis unfolding on_grid_def
      by (intro exI [of _ "i + 1"] exI [of _ "j"]) (simp add: Vec_def ij)
  qed
qed

lemma scan_neighbors_measure:
  assumes "scan_neighbors m goal ht cur cl nps (ol, best) = Inr (ol', best')"
    and "\<forall>np \<in> set nps. on_grid start np"
    and "g_cost cur = 16 * real n"
  shows "(search_measure (reach_keys m start) best', search_measure (reach_keys m start) best)
           \<in> pair_less
         \<or> (best' = best \<and> ol' = ol)"
  using assms(1,2)
proof (induction nps arbitrary: ol best)
  case Nil
  then show ?case by simp
next
  case (Cons np nps)
  let ?F = "reach_keys m start"
  have rest: "\<forall>np \<in> set nps. on_grid start np" using Cons.prems(2) by simp
  show ?case
  proof (cases "pos_key np \<in> cl")
    case True
    with Cons.prems(1) have "scan_neighbors m goal ht cur cl nps (ol, best) = Inr (ol', best')"
      by simp
    from Cons.IH [OF this rest] show ?thesis .
  next
    case False
    with Cons.prems(1) obtain valid where v: "is_valid_position m np 16 ''ghost'' = Inr valid"
      by (cases "is_valid_position m np 16 ''ghost''") simp_all
    let ?g = "g_cost cur + 16" and ?h = "heuristic np goal ht"
    let ?push = "valid \<and> (case best (pos_key np) of None \<Rightarrow> True | Some b \<Rightarrow> ?g < b)"
    have g: "?g = 16 * real (Suc n)" using assms(3) by simp
    show ?thesis
    proof (cases ?push)
      case True
      with Cons.prems(1) False v
      have r: "scan_neighbors m goal ht cur cl nps
                 (heappush ol (make_node np ?g ?h (Some cur)), best(pos_key np \<mapsto> ?g))
               = Inr (ol', best')"
        by (simp add: Let_def)
      have "pos_key np \<in> ?F"
        using True v Cons.prems(2) by (simp add: reach_keys_def pos_key_def)
      from push_measure [OF finite_reach_keys this, where best = best and n = n] True
      have step: "(search_measure ?F (best(pos_key np \<mapsto> ?g)), search_measure ?F best)
          \<in> pair_less"
        by (simp only: g)
      from Cons.IH [OF r rest] show ?thesis
      proof
        assume "(search_measure ?F best', search_measure ?F (best(pos_key np \<mapsto> ?g)))
            \<in> pair_less"
        with step have "(search_measure ?F best', search_measure ?F best) \<in> pair_less"
          using trans_pair_less by (blast dest: transD)
        then show ?thesis ..
      next
        assume "best' = best(pos_key np \<mapsto> ?g)
            \<and> ol' = heappush ol (make_node np ?g ?h (Some cur))"
        with step show ?thesis by blast
      qed
    next
      case no: False
      with Cons.prems(1) False v
      have "scan_neighbors m goal ht cur cl nps (ol, best) = Inr (ol', best')"
        by (auto simp: Let_def split: if_splits)
      from Cons.IH [OF this rest] show ?thesis .
    qed
  qed
qed

lemma queued_ok_child:
  assumes "queued_ok start cur" and "np \<in> set (get_neighbors (node_position cur) 16)"
  shows "queued_ok start (make_node np (g_cost cur + 16) h (Some cur))"
proof -
  from assms(1) obtain n :: nat where n: "g_cost cur = 16 * real n"
    by (auto simp: queued_ok_def)
  have "g_cost cur + 16 = 16 * real (Suc n)" using n by simp
  moreover have "on_grid start np"
    using assms by (auto simp: queued_ok_def intro: neighbor_on_grid)
  ultimately show ?thesis
    unfolding queued_ok_def make_node_def by (auto simp del: of_nat_Suc)
qed

lemma astar_loop_terminates:
  assumes "\<forall>nd \<in> set ol. queued_ok start nd"
  shows "\<exists>n r. astar_loop n m goal ht ol cl best = Some r"
proof -
  let ?F = "reach_keys m start"
  have wf: "wf (pair_less <*lex*> less_than)" by auto
  from wf assms show ?thesis
  proof (induction "(search_measure ?F best, length ol)" arbitrary: ol best cl
      rule: wf_induct_rule)
    case less
    show ?case
    proof (cases "ol = []")
      case True
      then have "astar_loop (Suc 0) m goal ht ol cl best = Some (Inr [])" by simp
      then show ?thesis by blast
    next
      case ne: False
      from heappop_nonempty [OF ne] obtain cur ol1 where
        pop: "heappop ol = Inr (cur, ol1)" and cur: "cur \<in> set ol"
        and sub: "set ol1 \<subseteq> set ol" and len: "Suc (length ol1) = length ol"
        by blast
      have ok: "queued_ok start cur" using cur less.prems by simp
      then obtain k :: nat where k: "g_cost cur = 16 * real k"
        by (auto simp: queued_ok_def)
      let ?cl = "insert (pos_key (node_position cur)) cl"
      let ?nbs = "get_neighbors (node_position cur) 16"
      show ?thesis
      proof (cases "distance_to (node_position cur) goal < 8")
        case True
        then have "astar_loop (Suc 0) m goal ht ol cl best = Some (Inr (reconstruct_path cur))"
          using ne pop by simp
        then show ?thesis by blast
      next
        case far: False
        show ?thesis
        proof (cases "scan_neighbors m goal ht cur ?cl ?nbs (ol1, best)")
          case (Inl e)
          then have "astar_loop (Suc 0) m goal ht ol cl best = Some (Inl e)"
            using ne pop far by (simp add: Let_def)
          then show ?thesis by blast
        next
          case (Inr st)
          obtain ol2 best2 where st: "st = (ol2, best2)" by (cases st)
          have scan: "scan_neighbors m goal ht cur ?cl ?nbs (ol1, best) = Inr (ol2, best2)"
            using Inr st by simp
          have grid: "\<forall>np \<in> set ?nbs. on_grid start np"
            using ok by (auto simp: queued_ok_def intro: neighbor_on_grid)
          from scan_neighbors_measure [OF scan grid k]
          have dec: "((search_measure ?F best2, length ol2), (search_measure ?F best, length ol))
              \<in> pair_less <*lex*> less_than"
            using len by auto
          have "\<forall>nd \<in> set ol1. queued_ok start nd" using sub less.prems by auto
          moreover have "\<forall>np \<in> set ?nbs.
              queued_ok start (make_node np (g_cost cur + 16) (heuristic np goal ht) (Some cur))"
            using queued_ok_child [OF ok] by blast
          ultimately have inv: "\<forall>nd \<in> set ol2. queued_ok start nd"
            by (rule scan_neighbors_nodes [OF scan])
          from less.hyps [OF dec inv, of ?cl] obtain n r where
            "astar_loop n m goal ht ol2 ?cl best2 = Some r" by blast
          then have "astar_loop (Suc n) m goal ht ol cl best = Some r"
            using ne pop far scan by (simp add: Let_def)
          then show ?thesis by blast
        qed
      qed
    qed
  qed
qed

lemma scan_neighbors_total:
  assumes "wf_map m"
  shows "\<exists>st. scan_neighbors m goal ht cur cl nps (ol, best) = Inr st"
proof (induction nps arbitrary: ol best)
  case Nil
  then show ?case by simp
next
  case (Cons np nps)
  from is_valid_position_total [OF assms, of np 16 "''ghost''"] obtain valid where
    "is_valid_position m np 16 ''ghost'' = Inr valid" by blast
  then show ?case
    using Cons.IH by (simp add: Let_def)
qed

lemma astar_loop_no_raise:
  assumes "wf_map m"
  shows "astar_loop n m goal ht ol cl best \<noteq> Some (Inl e)"
proof (induction n arbitrary: ol cl best)
  case 0
  then show ?case by simp
next
  case (Suc n)
  show ?case
  proof (cases "ol = []")
    case True
    then show ?thesis by simp
  next
    case ne: False
    from heappop_nonempty [OF ne] obtain cur ol1 where pop: "heappop ol = Inr (cur, ol1)"
      by blast
    let ?cl = "insert (pos_key (node_position cur)) cl"
    from scan_neighbors_total [OF assms, of goal ht cur ?cl "get_neighbors (node_position cur) 16"
        ol1 best]
    obtain ol2 best2 where
      "scan_neighbors m goal ht cur ?cl (get_neighbors (node_position cur) 16) (ol1, best)
       = Inr (ol2, best2)"
      by auto
    then show ?thesis
      using ne pop Suc.IH by (simp add: Let_def)
  qed
qed

lemma reconstruct_path_last: "last (reconstruct_path nd) = node_position nd"
proof -
  obtain rest where "path_back nd = node_position nd # rest"
    using path_back_hd [of nd] by blast
  then show ?thesis by (simp add: reconstruct_path_def)
qed

lemma astar_loop_result:
  assumes "astar_loop n m goal ht ol cl best = Some (Inr path)"
  shows "path = [] \<or> distance_to (last path) goal < 8"
  using assms
proof (induction n arbitrary: ol cl best)
  case 0
  then show ?case by simp
next
  case (Suc n)
  show ?case
  proof (cases "ol = []")
    case True
    with Suc.prems show ?thesis by simp
  next
    case ne: False
    from heappop_nonempty [OF ne] obtain cur ol1 where pop: "heappop ol = Inr (cur, ol1)"
      by blast
    show ?thesis
    proof (cases "distance_to (node_position cur) goal < 8")
      case True
      with Suc.prems ne pop have "path = reconstruct_path cur" by simp
      with True show ?thesis by (simp add: reconstruct_path_last)
    next
      case False
      with Suc.prems ne pop obtain ol2 best2 where
        "astar_loop n m goal ht ol2 (insert (pos_key (node_position cur)) cl) best2
         = Some (Inr path)"
        by (auto simp: Let_def split: sum.splits)
      from Suc.IH [OF this] show ?thesis .
    qed
  qed
qed

text \<open>
  Claim C3. With an empty open list the loop returns the empty path. And the search
  always ends: for some number of iterations \<open>find_path\<close> delivers a result; in a validated
  maze that result is a returned path, never an exception; and a returned path is empty
  unless its last waypoint, the node expanded last, is within the tolerance of 8 pixels
  of the goal. So when no expanded node comes within the tolerance, the open list
  runs empty and the empty path is returned.
\<close>

theorem find_path_exhaustion:
  "astar_loop (Suc n) m goal ht [] cl best = Some (Inr [])
   \<and> (\<exists>fuel r. find_path fuel start goal m ht = Some r
         \<and> (wf_map m \<longrightarrow> (\<exists>path. r = Inr path))
         \<and> (\<forall>path. r = Inr path \<longrightarrow> path = [] \<or> distance_to (last path) goal < 8))"
proof -
  let ?s = "make_node start 0 (heuristic start goal ht) None"
  have "queued_ok start ?s"
    unfolding queued_ok_def make_node_def on_grid_def
    by (auto intro!: exI [of _ "0::int"] exI [of _ "0::nat"])
  then have "\<forall>nd \<in> set (heappush [] ?s). queued_ok start nd"
    using heappush_set [of "[]" ?s] by auto
  from astar_loop_terminates [OF this, of m goal ht "{}" "[pos_key start \<mapsto> 0]"]
  obtain fuel r where r: "find_path fuel start goal m ht = Some r"
    by (auto simp: find_path_def)
  have "\<exists>path. r = Inr path" if "wf_map m"
    using astar_loop_no_raise [OF that] r by (cases r) (auto simp: find_path_def)
  moreover have "path = [] \<or> distance_to (last path) goal < 8" if "r = Inr path" for path
    using astar_loop_result r that by (auto simp: find_path_def)
  ultimately show ?thesis
    using r by auto
qed

lemma box_map_wf: "wf_map box_map"
  by (simp add: wf_map_def box_map_def)

lemma box_map_no_path:
  "find_path 2 (Vec 24 24) (Vec 100 100) box_map ''manhattan'' = Some (Inr [])"
  by (simp add: astar_eval box_map_def eval_nat_numeral)

theorem find_path_exhaustion_witness:
  "wf_map box_map
   \<and> astar_loop (Suc 0) box_map (Vec 100 100) ''manhattan'' [] {} (\<lambda>_. None) = Some (Inr [])
   \<and> (\<exists>fuel path. find_path fuel (Vec 24 24) (Vec 100 100) box_map ''manhattan''
                       = Some (Inr path)
                   \<and> (path = [] \<or> distance_to (last path) (Vec 100 100) < 8))
   \<and> find_path 2 (Vec 24 24) (Vec 100 100) box_map ''manhattan'' = Some (Inr [])"
  using find_path_exhaustion [where n = 0 and m = box_map and goal = "Vec 100 100"
      and ht = "''manhattan''" and cl = "{}" and best = "\<lambda>_. None" and start = "Vec 24 24"]
    box_map_wf box_map_no_path
  by blast


end
